theory Spec2Isabelle
  imports Complex_Main "HOL-Library.AList" "HOL-Library.Char_ord" "HOL-Library.List_Lexorder"
begin

section \<open>JavaScript values used by the dashboard code\<close>

text \<open>
  A JavaScript \<open>number\<close> is an IEEE-754 double.  A finite double is represented by the
  rational it denotes, and the three values that are not finite are kept.  The result of
  an addition or a division of finite numbers is the exact result rounded to the nearest
  double, ties to the even significand (\<open>round64\<close> below): it loses digits beyond the 53
  bits of the significand and it is an infinity when the rounded magnitude reaches
  \<open>2^1024\<close>.  The sign of a zero is not kept; nothing in the code modelled here
  observes it.  The type holds every rational, of which the doubles are those that
  rounding leaves as they are (\<open>is_double\<close> below); a result of the arithmetic is always
  a double, and the theorems hold whatever rationals the input amounts are.
\<close>

datatype jsnum = Fin rat | NaN | PosInf | NegInf

text \<open>The number of binary digits of a natural number.\<close>

fun bit_length :: "nat \<Rightarrow> nat" where
  "bit_length n = (if n = 0 then 0 else Suc (bit_length (n div 2)))"

declare bit_length.simps [simp del]

text \<open>
  The binary exponent of a positive rational: the \<open>e\<close> with \<open>2^e \<le> a < 2^(e+1)\<close>
  (lemma \<open>ilog2_bounds\<close> below).
\<close>

definition ilog2 :: "rat \<Rightarrow> int" where
  "ilog2 a =
     (if 1 \<le> a then int (bit_length (nat \<lfloor>a\<rfloor>)) - 1
      else - int (bit_length (nat (\<lceil>1 / a\<rceil> - 1))))"

text \<open>The nearest integer, a tie going to the even one.\<close>

definition round_half_even :: "rat \<Rightarrow> int" where
  "round_half_even x =
     (let f = \<lfloor>x\<rfloor>; d = x - of_int f
      in if d < 1 / 2 then f
         else if 1 / 2 < d then f + 1
         else if even f then f else f + 1)"

text \<open>
  Rounding of an exact result to a double.  The doubles of binary exponent \<open>e\<close> are the
  multiples of \<open>2^(e - 52)\<close>; below \<open>2^(-1022)\<close> the spacing stays \<open>2^(-1074)\<close> (the
  subnormal numbers, down to zero), and a result whose rounded magnitude is \<open>2^1024\<close>
  or more is an infinity.
\<close>

definition round64 :: "rat \<Rightarrow> jsnum" where
  "round64 q =
     (if q = 0 then Fin 0
      else
        (let a = \<bar>q\<bar>;
             e = max (ilog2 a) (- 1022);
             u = 2 powi (e - 52);
             r = of_int (round_half_even (a / u)) * u
         in if 2 ^ 1024 \<le> r then (if 0 < q then PosInf else NegInf)
            else Fin (sgn q * r)))"

fun isFinite :: "jsnum \<Rightarrow> bool" where
  "isFinite (Fin q) = True"
| "isFinite NaN = False"
| "isFinite PosInf = False"
| "isFinite NegInf = False"

fun isNaN :: "jsnum \<Rightarrow> bool" where
  "isNaN NaN = True"
| "isNaN (Fin q) = False"
| "isNaN PosInf = False"
| "isNaN NegInf = False"

text \<open>\<open>a + b\<close> on numbers.\<close>

fun js_add :: "jsnum \<Rightarrow> jsnum \<Rightarrow> jsnum" where
  "js_add (Fin a) (Fin b) = round64 (a + b)"
| "js_add NaN y = NaN"
| "js_add x NaN = NaN"
| "js_add PosInf NegInf = NaN"
| "js_add NegInf PosInf = NaN"
| "js_add PosInf y = PosInf"
| "js_add NegInf y = NegInf"
| "js_add (Fin a) PosInf = PosInf"
| "js_add (Fin a) NegInf = NegInf"

fun js_neg :: "jsnum \<Rightarrow> jsnum" where
  "js_neg (Fin a) = Fin (- a)"
| "js_neg NaN = NaN"
| "js_neg PosInf = NegInf"
| "js_neg NegInf = PosInf"

text \<open>\<open>a - b\<close> on numbers.\<close>

definition js_sub :: "jsnum \<Rightarrow> jsnum \<Rightarrow> jsnum" where
  "js_sub a b = js_add a (js_neg b)"

text \<open>
  \<open>a / b\<close> on numbers.  Division never raises in JavaScript: a zero divisor gives
  \<open>NaN\<close> for a zero dividend and an infinity otherwise, and a quotient too large for a
  double is an infinity as well.
\<close>

fun js_div :: "jsnum \<Rightarrow> jsnum \<Rightarrow> jsnum" where
  "js_div NaN y = NaN"
| "js_div x NaN = NaN"
| "js_div (Fin a) (Fin b) =
     (if b = 0 then (if a = 0 then NaN else if 0 < a then PosInf else NegInf)
      else round64 (a / b))"
| "js_div (Fin a) PosInf = Fin 0"
| "js_div (Fin a) NegInf = Fin 0"
| "js_div PosInf (Fin b) = (if 0 \<le> b then PosInf else NegInf)"
| "js_div NegInf (Fin b) = (if 0 \<le> b then NegInf else PosInf)"
| "js_div PosInf y = NaN"
| "js_div NegInf y = NaN"

text \<open>\<open>a > b\<close> and \<open>a >= b\<close> on numbers: every comparison with \<open>NaN\<close> is false.\<close>

fun js_gt :: "jsnum \<Rightarrow> jsnum \<Rightarrow> bool" where
  "js_gt NaN y = False"
| "js_gt x NaN = False"
| "js_gt (Fin a) (Fin b) = (b < a)"
| "js_gt PosInf PosInf = False"
| "js_gt PosInf y = True"
| "js_gt x PosInf = False"
| "js_gt NegInf y = False"
| "js_gt (Fin a) NegInf = True"

definition js_ge :: "jsnum \<Rightarrow> jsnum \<Rightarrow> bool" where
  "js_ge a b = (js_gt a b \<or> (\<not> isNaN a \<and> a = b))"

text \<open>
  A non-negative integer of at most \<open>2^53\<close>: a double holds it exactly and \<open>String\<close>
  prints it as its decimal numeral.
\<close>

typedef safe_integer = "{n :: nat. n \<le> 2 ^ 53}"
  by (rule exI [of _ 0]) simp

text \<open>
  The value of a row's period key as the backend may send it: missing (\<open>undefined\<close>),
  \<open>null\<close>, a number (the database column is an INTEGER holding YYYYMMDD, so a number
  key is a safe integer) or a string.
\<close>

datatype jskey = Undefined | Null | KNum safe_integer | KStr string

text \<open>\<open>a ?? b\<close> on key values and on optional numbers (\<open>None\<close> is null or undefined).\<close>

fun nullish_key :: "jskey \<Rightarrow> jskey \<Rightarrow> jskey" where
  "nullish_key Undefined b = b"
| "nullish_key Null b = b"
| "nullish_key a b = a"

fun nullish :: "'a option \<Rightarrow> 'a option \<Rightarrow> 'a option" where
  "nullish None b = b"
| "nullish (Some a) b = Some a"

text \<open>
  Decimal numeral of a non-negative integer, which is what \<open>String(n)\<close> returns for an
  integer that is a double and is below \<open>10^21\<close>.
\<close>

definition digit_char :: "nat \<Rightarrow> char" where
  "digit_char d = ''0123456789'' ! d"

fun string_of_nat :: "nat \<Rightarrow> string" where
  "string_of_nat n =
     (if n < 10 then [digit_char n]
      else string_of_nat (n div 10) @ [digit_char (n mod 10)])"

declare string_of_nat.simps [simp del]

text \<open>\<open>String(v)\<close> on key values.\<close>

fun String :: "jskey \<Rightarrow> string" where
  "String Undefined = ''undefined''"
| "String Null = ''null''"
| "String (KNum n) = string_of_nat (Rep_safe_integer n)"
| "String (KStr s) = s"

section \<open>The client-side aggregation engine (ApiService.simulateQueryExecution)\<close>

text \<open>
  One row of \<open>response.data\<close>.  The backend may name a column in camel case or in lower
  case, so each column is read from two properties.  An amount property holds the number
  that \<open>Number(...)\<close> returns for it (\<open>NaN\<close> for a value that is not numeric), or
  \<open>None\<close> when the property is null or undefined.
\<close>

record raw_row =
  row_ProcessingDateKey :: jskey
  row_processingdatekey :: jskey
  row_CommitmentAmt :: "jsnum option"
  row_commitmentamt :: "jsnum option"
  row_OutstandingAmt :: "jsnum option"
  row_outstandingamt :: "jsnum option"

text \<open>The value type of \<open>aggMap\<close>.\<close>

record agg =
  agg_CommitmentAmt :: jsnum
  agg_OutstandingAmt :: jsnum
  agg_Deals :: jsnum

text \<open>The interface \<open>AnalyticsRecord\<close>: \<open>number | null\<close> fields are options.\<close>

record AnalyticsRecord =
  ProcessingDateKey :: string
  CommitmentAmt :: jsnum
  Deals :: jsnum
  OutstandingAmt :: jsnum
  ProcessingDateKeyPrior :: string
  CommitmentAmtPrior :: jsnum
  OutstandingAmtPrior :: jsnum
  DealsPrior :: jsnum
  ca_diff :: "jsnum option"
  oa_diff :: "jsnum option"
  deals_diff :: "jsnum option"
  ca_model_diff :: "jsnum option"
  oa_model_diff :: "jsnum option"
  deals_model_diff :: "jsnum option"

datatype js_error = Error string | TypeError

text \<open>\<open>const key = String(row.ProcessingDateKey ?? row.processingdatekey)\<close>\<close>

definition row_key :: "raw_row \<Rightarrow> string" where
  "row_key row = String (nullish_key (row_ProcessingDateKey row) (row_processingdatekey row))"

text \<open>
  \<open>const ca = Number(row.CommitmentAmt ?? row.commitmentamt ?? 0)\<close>, and \<open>oa\<close> alike.  The
  chain of \<open>??\<close> ends in the number 0, so it is never nullish and the \<open>None\<close> case of the
  model is not taken.
\<close>

definition row_ca :: "raw_row \<Rightarrow> jsnum" where
  "row_ca row =
     (case nullish (nullish (row_CommitmentAmt row) (row_commitmentamt row)) (Some (Fin 0)) of
        Some v \<Rightarrow> v | None \<Rightarrow> NaN)"

definition row_oa :: "raw_row \<Rightarrow> jsnum" where
  "row_oa row =
     (case nullish (nullish (row_OutstandingAmt row) (row_outstandingamt row)) (Some (Fin 0)) of
        Some v \<Rightarrow> v | None \<Rightarrow> NaN)"

text \<open>
  The body of the first loop.  \<open>aggMap\<close> is a JavaScript \<open>Map\<close>: it keeps its keys in
  insertion order, and \<open>set\<close> on a key it holds replaces the value in place, which is
  \<open>AList.update\<close> on an association list.
\<close>

definition agg_step :: "(string \<times> agg) list \<Rightarrow> raw_row \<Rightarrow> (string \<times> agg) list" where
  "agg_step aggMap row =
     (let key = row_key row;
          ca = row_ca row;
          oa = row_oa row;
          current = (case map_of aggMap key of
                       Some c \<Rightarrow> c
                     | None \<Rightarrow> \<lparr>agg_CommitmentAmt = Fin 0, agg_OutstandingAmt = Fin 0,
                                agg_Deals = Fin 0\<rparr>);
          current' = \<lparr>agg_CommitmentAmt =
                        js_add (agg_CommitmentAmt current) (if isFinite ca then ca else Fin 0),
                      agg_OutstandingAmt =
                        js_add (agg_OutstandingAmt current) (if isFinite oa then oa else Fin 0),
                      agg_Deals = js_add (agg_Deals current) (Fin 1)\<rparr>
      in AList.update key current' aggMap)"

definition aggregate :: "raw_row list \<Rightarrow> (string \<times> agg) list" where
  "aggregate rows = foldl agg_step [] rows"

text \<open>
  \<open>Array.from(aggMap.keys()).sort()\<close>: the default comparison of \<open>sort\<close> orders strings
  by their code units, a proper prefix first, which is the lexicographic order on
  \<open>char list\<close>.  The keys of a map are distinct, so the sorted array is determined by the
  order alone.
\<close>

definition dates_of :: "(string \<times> agg) list \<Rightarrow> string list" where
  "dates_of aggMap = sort (map fst aggMap)"

text \<open>
  The three ratio fields of the record literal share one shape:
  \<open>prev && prev.X > 0 ? (cur.X - prev.X) / prev.X : null\<close>.
\<close>

definition diff_of :: "(agg \<Rightarrow> jsnum) \<Rightarrow> agg \<Rightarrow> (string \<times> agg) option \<Rightarrow> jsnum option" where
  "diff_of X cur prev =
     (case prev of
        None \<Rightarrow> None
      | Some (pk, p) \<Rightarrow>
          if js_gt (X p) (Fin 0) then Some (js_div (js_sub (X cur) (X p)) (X p)) else None)"

text \<open>The record literal \<open>rec\<close> of the second loop.\<close>

definition mk_record :: "string \<Rightarrow> agg \<Rightarrow> (string \<times> agg) option \<Rightarrow> AnalyticsRecord" where
  "mk_record key cur prev =
     \<lparr>ProcessingDateKey = key,
      CommitmentAmt = agg_CommitmentAmt cur,
      Deals = agg_Deals cur,
      OutstandingAmt = agg_OutstandingAmt cur,
      ProcessingDateKeyPrior = (case prev of Some (pk, p) \<Rightarrow> pk | None \<Rightarrow> ''0''),
      CommitmentAmtPrior = (case prev of Some (pk, p) \<Rightarrow> agg_CommitmentAmt p | None \<Rightarrow> Fin 0),
      OutstandingAmtPrior = (case prev of Some (pk, p) \<Rightarrow> agg_OutstandingAmt p | None \<Rightarrow> Fin 0),
      DealsPrior = (case prev of Some (pk, p) \<Rightarrow> agg_Deals p | None \<Rightarrow> Fin 0),
      ca_diff = diff_of agg_CommitmentAmt cur prev,
      oa_diff = diff_of agg_OutstandingAmt cur prev,
      deals_diff = diff_of agg_Deals cur prev,
      ca_model_diff = None,
      oa_model_diff = None,
      deals_model_diff = None\<rparr>"

text \<open>
  The second loop, over the sorted keys, with \<open>prev\<close> threaded through.  The source reads
  \<open>aggMap.get(key)!\<close>; were the key missing, reading a property of \<open>undefined\<close> would
  throw a TypeError, which is the \<open>None\<close> branch.
\<close>

fun build_records ::
  "(string \<times> agg) list \<Rightarrow> (string \<times> agg) option \<Rightarrow> string list \<Rightarrow> js_error + AnalyticsRecord list"
where
  "build_records aggMap prev [] = Inr []"
| "build_records aggMap prev (key # keys) =
     (case map_of aggMap key of
        None \<Rightarrow> Inl TypeError
      | Some cur \<Rightarrow>
          (case build_records aggMap (Some (key, cur)) keys of
             Inl e \<Rightarrow> Inl e
           | Inr records \<Rightarrow> Inr (mk_record key cur prev # records)))"

text \<open>The aggregation proper: everything after \<open>const rows = response.data\<close>.\<close>

definition engine :: "raw_row list \<Rightarrow> js_error + AnalyticsRecord list" where
  "engine rows = (let aggMap = aggregate rows in build_records aggMap None (dates_of aggMap))"

text \<open>
  The response of \<open>executeQuery\<close>, as far as the function reads it.  \<open>data\<close> is \<open>None\<close>
  when the property is missing or null.
\<close>

record ApiResponse =
  success :: bool
  data :: "raw_row list option"
  error :: "string option"

text \<open>
  \<open>simulateQueryExecution\<close> after the request has returned: the progress messages and the
  network call are effects outside the model.  \<open>response.error || 'Query failed'\<close> takes
  the default for a missing and for an empty message, and iterating over rows that are
  not there throws a TypeError.
\<close>

definition simulateQueryExecution :: "ApiResponse \<Rightarrow> js_error + AnalyticsRecord list" where
  "simulateQueryExecution response =
     (if \<not> success response then
        Inl (Error (case error response of
                      None \<Rightarrow> ''Query failed''
                    | Some msg \<Rightarrow> if msg = [] then ''Query failed'' else msg))
      else (case data response of
              None \<Rightarrow> Inl TypeError
            | Some rows \<Rightarrow> engine rows))"

section \<open>The roll-up of the seed script (INSERT INTO aggregated_analytics)\<close>

text \<open>
  The seed script of the database fills \<open>aggregated_analytics\<close> with the same roll-up in
  SQL.  Each of its ratios is
  \<open>CASE WHEN prior IS NULL OR prior = 0 THEN NULL ELSE (cur / prior) - 1 END\<close>.  Only the
  condition of the \<open>CASE\<close> is modelled, over the prior total (a NUMERIC, \<open>None\<close> for
  NULL): when it holds the ratio is NULL, and otherwise the script evaluates
  \<open>(cur / prior) - 1\<close>.  The value of that branch, which the column rounds to six
  decimals, is not modelled.
\<close>

definition sql_ratio_guard :: "rat option \<Rightarrow> bool" where
  "sql_ratio_guard prior = (case prior of None \<Rightarrow> True | Some p \<Rightarrow> p = 0)"

section \<open>The custom commitment range form (CustomCommitmentRangeBuilder.handleSubmit)\<close>

text \<open>
  The interface \<open>CustomCommitmentRange\<close>.  The label is kept as its sequence of UTF-16
  code units, which is what \<open>trim\<close> works on.
\<close>

record CustomCommitmentRange =
  range_id :: string
  range_label :: "nat list"
  range_min :: jsnum
  range_max :: jsnum

text \<open>The component state \<open>rangeForm\<close>: the three inputs of the dialog, as typed.\<close>

record range_form =
  form_label :: "nat list"
  form_min :: string
  form_max :: string

text \<open>
  What \<open>handleSubmit\<close> reads and writes: the list of ranges held by the page
  (\<open>selectedFilters.customCommitmentRanges\<close>, which \<open>onAddRange\<close> extends), the form and the
  flag of the dialog.
\<close>

record builder_state =
  customRanges :: "CustomCommitmentRange list"
  rangeForm :: range_form
  isDialogOpen :: bool

text \<open>
  \<open>s.trim()\<close> removes the white space and the line terminators of the language from both
  ends: tab, line feed, vertical tab, form feed, carriage return, space, no-break space
  (U+00A0), U+1680, U+2000 to U+200A, the line and paragraph separators (U+2028, U+2029),
  U+202F, U+205F, U+3000 and the byte order mark (U+FEFF).
\<close>

definition is_space :: "nat \<Rightarrow> bool" where
  "is_space c =
     (c \<in> {9, 10, 11, 12, 13, 32, 160, 5760, 8232, 8233, 8239, 8287, 12288, 65279} \<or>
      (8192 \<le> c \<and> c \<le> 8202))"

definition trim :: "nat list \<Rightarrow> nat list" where
  "trim s = rev (dropWhile is_space (rev (dropWhile is_space s)))"

text \<open>The page's \<open>handleCustomRangeAdd\<close>, passed to the component as \<open>onAddRange\<close>.\<close>

definition handleCustomRangeAdd ::
  "CustomCommitmentRange list \<Rightarrow> CustomCommitmentRange \<Rightarrow> CustomCommitmentRange list" where
  "handleCustomRangeAdd ranges r = ranges @ [r]"

text \<open>
  \<open>handleSubmit\<close>.  The function \<open>parseFloat\<close> of the language and the clock \<open>Date.now()\<close>
  are parameters; the clock counts milliseconds, a number of at most 16 digits that
  \<open>String\<close> prints in full.  The handler has no \<open>throw\<close>: on an invalid form it returns,
  and the result is \<open>Inr\<close> of the state it leaves.
\<close>

definition handleSubmit ::
  "(string \<Rightarrow> jsnum) \<Rightarrow> nat \<Rightarrow> builder_state \<Rightarrow> js_error + builder_state" where
  "handleSubmit parseFloat now st =
     (let minValue = parseFloat (form_min (rangeForm st));
          maxValue = parseFloat (form_max (rangeForm st))
      in if isNaN minValue \<or> isNaN maxValue \<or> js_ge minValue maxValue \<or>
            trim (form_label (rangeForm st)) = []
         then Inr st
         else
           (let newRange = \<lparr>range_id = ''custom-'' @ string_of_nat now,
                             range_label = trim (form_label (rangeForm st)),
                             range_min = minValue, range_max = maxValue\<rparr>
            in Inr \<lparr>customRanges = handleCustomRangeAdd (customRanges st) newRange,
                    rangeForm = \<lparr>form_label = [], form_min = '''', form_max = ''''\<rparr>,
                    isDialogOpen = False\<rparr>))"

section \<open>The request of the main page (App.handleRunQuery)\<close>

datatype date_operator = equals | greaterThan | lessThan | between

text \<open>The interfaces \<open>DateFilter\<close> and \<open>SelectedFilters\<close>; a date is its YYYYMMDD number.\<close>

record DateFilter =
  df_operator :: date_operator
  df_startDate :: nat
  df_endDate :: "nat option"

record SelectedFilters =
  sel_sbaClassification :: "string list"
  sel_lineOfBusiness :: "string list"
  sel_commitmentSizeGroup :: "string list"
  sel_customCommitmentRanges :: "CustomCommitmentRange list"
  sel_riskGroup :: "string list"
  sel_bankId :: "string list"
  sel_region :: "string list"
  sel_naicsGrpName :: "string list"
  sel_dateFilters :: "DateFilter list"

text \<open>
  The body of the request to \<open>/analysis/capped-vs-uncapped\<close>.  A property whose value is
  \<open>undefined\<close> is left out by \<open>JSON.stringify\<close>: it is \<open>None\<close>.
\<close>

record cappedAnalysisRequest =
  selected_columns :: "string list"
  region :: string
  sba_filter :: string
  line_of_business_ids :: "string list option"
  commitment_size_groups :: "string list option"
  risk_group_descriptions :: "string list option"
  cap_value :: rat
  output_file :: string

text \<open>\<open>xs.length > 0 ? xs : undefined\<close>\<close>

definition non_empty_or_undefined :: "string list \<Rightarrow> string list option" where
  "non_empty_or_undefined xs = (if 0 < length xs then Some xs else None)"

text \<open>
  \<open>xs[0] || "Rocky Mountain"\<close>: the default stands in for a missing first element and for
  an empty string, the two falsy cases.
\<close>

definition first_or_default :: "string list \<Rightarrow> string" where
  "first_or_default xs =
     (case xs of
        [] \<Rightarrow> ''Rocky Mountain''
      | x # _ \<Rightarrow> if x = [] then ''Rocky Mountain'' else x)"

text \<open>The object literal that \<open>handleRunQuery\<close> passes to \<open>api.cappedAnalysis\<close>.\<close>

definition handleRunQuery_request :: "SelectedFilters \<Rightarrow> nat \<Rightarrow> cappedAnalysisRequest" where
  "handleRunQuery_request selectedFilters now =
     \<lparr>selected_columns =
        [''ProcessingDateKey'', ''CommitmentAmt'', ''OutstandingAmt'', ''Deals'',
         ''ProcessingDateKeyPrior'', ''CommitmentAmtPrior'', ''OutstandingAmtPrior'',
         ''DealsPrior''],
      region = first_or_default (sel_region selectedFilters),
      sba_filter = ''Non-SBA'',
      line_of_business_ids = non_empty_or_undefined (sel_lineOfBusiness selectedFilters),
      commitment_size_groups = non_empty_or_undefined (sel_commitmentSizeGroup selectedFilters),
      risk_group_descriptions = non_empty_or_undefined (sel_riskGroup selectedFilters),
      cap_value = 1 / 10,
      output_file = ''dashboard_analysis_'' @ string_of_nat now @ ''.csv''\<rparr>"

text \<open>
  The count on which the filter panel enables its run button, the only caller of
  \<open>handleRunQuery\<close>: \<open>disabled={disabled || totalSelectedFilters === 0}\<close>.  It adds the
  lengths of all entries of the selection.
\<close>

definition totalSelectedFilters :: "SelectedFilters \<Rightarrow> nat" where
  "totalSelectedFilters selectedFilters =
     length (sel_sbaClassification selectedFilters) +
     length (sel_lineOfBusiness selectedFilters) +
     length (sel_commitmentSizeGroup selectedFilters) +
     length (sel_customCommitmentRanges selectedFilters) +
     length (sel_riskGroup selectedFilters) +
     length (sel_bankId selectedFilters) +
     length (sel_region selectedFilters) +
     length (sel_naicsGrpName selectedFilters) +
     length (sel_dateFilters selectedFilters)"

section \<open>Notions used to state the properties\<close>

text \<open>
  The sum of a list of numbers as JavaScript computes it: from \<open>0\<close>, left to right, each
  partial sum rounded to a double.
\<close>

definition js_sum :: "jsnum list \<Rightarrow> jsnum" where
  "js_sum xs = foldl js_add (Fin 0) xs"

text \<open>The rational that a finite number denotes.\<close>

fun fin_val :: "jsnum \<Rightarrow> rat" where
  "fin_val (Fin q) = q"
| "fin_val NaN = 0"
| "fin_val PosInf = 0"
| "fin_val NegInf = 0"

text \<open>A rational that is a double: rounding leaves it as it is.\<close>

definition is_double :: "rat \<Rightarrow> bool" where
  "is_double q = (round64 q = Fin q)"

text \<open>
  A list of amounts that adds up without rounding: starting from \<open>a\<close>, every partial sum
  is a double.
\<close>

fun exact_sums_from :: "rat \<Rightarrow> rat list \<Rightarrow> bool" where
  "exact_sums_from a [] = True"
| "exact_sums_from a (q # qs) = (is_double (a + q) \<and> exact_sums_from (a + q) qs)"

definition exact_sums :: "rat list \<Rightarrow> bool" where
  "exact_sums qs = exact_sums_from 0 qs"

text \<open>What one amount adds to its total: \<open>isFinite(ca) ? ca : 0\<close>.\<close>

definition finite_or_zero :: "jsnum \<Rightarrow> jsnum" where
  "finite_or_zero v = (if isFinite v then v else Fin 0)"

text \<open>The input rows of one period, in input order.\<close>

definition group_of :: "string \<Rightarrow> raw_row list \<Rightarrow> raw_row list" where
  "group_of k rows = filter (\<lambda>r. row_key r = k) rows"

text \<open>The aggregate of one period, computed from the rows directly.\<close>

definition agg_spec :: "raw_row list \<Rightarrow> string \<Rightarrow> agg" where
  "agg_spec rows k =
     \<lparr>agg_CommitmentAmt = js_sum (map (\<lambda>r. finite_or_zero (row_ca r)) (group_of k rows)),
      agg_OutstandingAmt = js_sum (map (\<lambda>r. finite_or_zero (row_oa r)) (group_of k rows)),
      agg_Deals = js_sum (map (\<lambda>r. Fin 1) (group_of k rows))\<rparr>"

text \<open>The sorted period keys of a list of rows, and the entries of their aggregates.\<close>

definition periods :: "raw_row list \<Rightarrow> string list" where
  "periods rows = dates_of (aggregate rows)"

definition summaries :: "raw_row list \<Rightarrow> (string \<times> agg) list" where
  "summaries rows = map (\<lambda>k. (k, agg_spec rows k)) (periods rows)"

text \<open>
  The records the second loop builds from the sorted entries of the map, written without
  the lookups (lemma \<open>build_records_eq\<close> relates the two).
\<close>

fun records_from :: "(string \<times> agg) option \<Rightarrow> (string \<times> agg) list \<Rightarrow> AnalyticsRecord list" where
  "records_from prev [] = []"
| "records_from prev (e # es) = mk_record (fst e) (snd e) prev # records_from (Some e) es"

text \<open>
  The filter groups of a selection, whether a group holds nothing, and the values to
  which a request body restricts the column of a group: the body has a property for the
  region, the SBA classification, the lines of business, the commitment size groups and
  the risk groups, and \<open>None\<close> stands for a property that is absent.
\<close>

datatype filter_group =
  SbaClassification | LineOfBusiness | CommitmentSizeGroup | CustomCommitmentRanges |
  RiskGroup | BankId | Region | NaicsGrpName | DateFilters

fun group_is_empty :: "SelectedFilters \<Rightarrow> filter_group \<Rightarrow> bool" where
  "group_is_empty sel SbaClassification = (sel_sbaClassification sel = [])"
| "group_is_empty sel LineOfBusiness = (sel_lineOfBusiness sel = [])"
| "group_is_empty sel CommitmentSizeGroup = (sel_commitmentSizeGroup sel = [])"
| "group_is_empty sel CustomCommitmentRanges = (sel_customCommitmentRanges sel = [])"
| "group_is_empty sel RiskGroup = (sel_riskGroup sel = [])"
| "group_is_empty sel BankId = (sel_bankId sel = [])"
| "group_is_empty sel Region = (sel_region sel = [])"
| "group_is_empty sel NaicsGrpName = (sel_naicsGrpName sel = [])"
| "group_is_empty sel DateFilters = (sel_dateFilters sel = [])"

fun sent_restriction :: "cappedAnalysisRequest \<Rightarrow> filter_group \<Rightarrow> string list option" where
  "sent_restriction req Region = Some [region req]"
| "sent_restriction req SbaClassification = Some [sba_filter req]"
| "sent_restriction req LineOfBusiness = line_of_business_ids req"
| "sent_restriction req CommitmentSizeGroup = commitment_size_groups req"
| "sent_restriction req RiskGroup = risk_group_descriptions req"
| "sent_restriction req CustomCommitmentRanges = None"
| "sent_restriction req BankId = None"
| "sent_restriction req NaicsGrpName = None"
| "sent_restriction req DateFilters = None"

text \<open>
  The number a period key denotes: a key is the decimal numeral YYYYMMDD, so a valid key
  is a string of eight decimal digits.
\<close>

definition is_digit :: "char \<Rightarrow> bool" where
  "is_digit c = (CHR ''0'' \<le> c \<and> c \<le> CHR ''9'')"

definition digit_val :: "char \<Rightarrow> nat" where
  "digit_val c = of_char c - 48"

definition key_num :: "string \<Rightarrow> nat" where
  "key_num s = foldl (\<lambda>a c. 10 * a + digit_val c) 0 s"

definition eight_digits :: "string \<Rightarrow> bool" where
  "eight_digits s = (length s = 8 \<and> (\<forall>c\<in>set s. is_digit c))"

section \<open>Example inputs\<close>

text \<open>A number key, for a number of at most \<open>2^53\<close>.\<close>

definition date_key :: "nat \<Rightarrow> jskey" where
  "date_key n = KNum (Abs_safe_integer n)"

text \<open>A row as the backend sends it: camel-case properties holding numbers.\<close>

definition camel_row :: "nat \<Rightarrow> rat \<Rightarrow> rat \<Rightarrow> raw_row" where
  "camel_row k c oa =
     \<lparr>row_ProcessingDateKey = date_key k, row_processingdatekey = Undefined,
      row_CommitmentAmt = Some (Fin c), row_commitmentamt = None,
      row_OutstandingAmt = Some (Fin oa), row_outstandingamt = None\<rparr>"

text \<open>The example scenario of the specification: two periods of two records each.\<close>

definition example_rows :: "raw_row list" where
  "example_rows =
     [camel_row 20240229 1200000 900000, camel_row 20240131 1000000 800000,
      camel_row 20240131 500000 450000, camel_row 20240229 400000 350000]"

text \<open>A single record, so a single period.\<close>

definition single_row :: "raw_row list" where
  "single_row = [camel_row 20240131 1000000 800000]"


text \<open>A first period with a negative total commitment, followed by a second period.\<close>

definition negative_prior_rows :: "raw_row list" where
  "negative_prior_rows = [camel_row 20240131 (- 100) 80, camel_row 20240229 50 40]"

text \<open>One period in which an amount is \<open>NaN\<close>, missing or infinite, and one regular row.\<close>

definition irregular_rows :: "raw_row list" where
  "irregular_rows =
     [\<lparr>row_ProcessingDateKey = date_key 20240131, row_processingdatekey = Undefined,
       row_CommitmentAmt = Some NaN, row_commitmentamt = None,
       row_OutstandingAmt = Some (Fin 70), row_outstandingamt = None\<rparr>,
      \<lparr>row_ProcessingDateKey = Undefined, row_processingdatekey = KStr ''20240131'',
       row_CommitmentAmt = None, row_commitmentamt = None,
       row_OutstandingAmt = None, row_outstandingamt = Some PosInf\<rparr>,
      camel_row 20240131 100 80]"

text \<open>
  The doubles nearest to 0.1 and to 0.2, which are \<open>3602879701896397 / 2^55\<close> and
  \<open>3602879701896397 / 2^54\<close>, and one period that holds the two as commitments.
\<close>

definition tenth :: rat where
  "tenth = 3602879701896397 / 36028797018963968"

definition fifth :: rat where
  "fifth = 3602879701896397 / 18014398509481984"

definition fraction_rows :: "raw_row list" where
  "fraction_rows = [camel_row 20240131 tenth 0, camel_row 20240131 fifth 0]"

text \<open>
  The double \<open>2^1023\<close> (about \<open>9 * 10^307\<close>), and one period that holds it twice as a
  commitment.
\<close>

definition huge :: rat where
  "huge = 2 ^ 1023"

definition huge_rows :: "raw_row list" where
  "huge_rows = [camel_row 20240131 huge 0, camel_row 20240131 huge 0]"

text \<open>The code units of a string of ASCII characters.\<close>

definition utf16 :: "string \<Rightarrow> nat list" where
  "utf16 s = map of_char s"

text \<open>
  The values of \<open>parseFloat\<close> on the inputs of the examples below: a decimal numeral
  parses to its number, text that starts no numeral to \<open>NaN\<close>.
\<close>

definition sample_parseFloat :: "string \<Rightarrow> jsnum" where
  "sample_parseFloat s =
     (if s = ''100'' then Fin 100 else if s = ''500'' then Fin 500 else NaN)"

text \<open>The dialog filled with a range whose bounds are equal, over no ranges so far.\<close>

definition equal_bounds_state :: builder_state where
  "equal_bounds_state =
     \<lparr>customRanges = [],
      rangeForm = \<lparr>form_label = utf16 ''Mid market'', form_min = ''100'', form_max = ''100''\<rparr>,
      isDialogOpen = True\<rparr>"

definition inverted_bounds_state :: builder_state where
  "inverted_bounds_state =
     \<lparr>customRanges = [],
      rangeForm = \<lparr>form_label = utf16 ''Mid market'', form_min = ''500'', form_max = ''100''\<rparr>,
      isDialogOpen = True\<rparr>"

text \<open>The selection in which no filter group holds anything.\<close>

definition no_selection :: SelectedFilters where
  "no_selection =
     \<lparr>sel_sbaClassification = [], sel_lineOfBusiness = [], sel_commitmentSizeGroup = [],
      sel_customCommitmentRanges = [], sel_riskGroup = [], sel_bankId = [], sel_region = [],
      sel_naicsGrpName = [], sel_dateFilters = []\<rparr>"

text \<open>One line of business selected and nothing else, which enables the run button.\<close>

definition lob_selection :: SelectedFilters where
  "lob_selection = no_selection\<lparr>sel_lineOfBusiness := [''12'']\<rparr>"


section \<open>Rounding to a double\<close>

lemma bit_length_bounds: "0 < n \<Longrightarrow> 2 ^ (bit_length n - 1) \<le> n \<and> n < 2 ^ bit_length n"
proof (induction n rule: bit_length.induct)
  case (1 n)
  show ?case
  proof (cases "n div 2 = 0")
    case True
    with "1.prems" have "n = 1" by (auto simp: div_eq_0_iff)
    then show ?thesis
      by (simp add: bit_length.simps)
  next
    case False
    then have pos: "0 < n div 2" by simp
    with "1.IH" "1.prems" have
      lo: "2 ^ (bit_length (n div 2) - 1) \<le> n div 2" and hi: "n div 2 < 2 ^ bit_length (n div 2)"
      by simp_all
    from pos have bl_pos: "0 < bit_length (n div 2)"
      by (subst bit_length.simps) simp
    have eq: "bit_length n = Suc (bit_length (n div 2))"
      using "1.prems" by (subst bit_length.simps) simp
    from bl_pos have "(2::nat) ^ bit_length (n div 2) = 2 * 2 ^ (bit_length (n div 2) - 1)"
      by (cases "bit_length (n div 2)") simp_all
    with lo have "2 ^ bit_length (n div 2) \<le> 2 * (n div 2)" by simp
    also have "\<dots> \<le> n" by simp
    finally have a: "2 ^ (bit_length n - 1) \<le> n" by (simp add: eq)
    from hi have "n < 2 * 2 ^ bit_length (n div 2)" by linarith
    then have b: "n < 2 ^ bit_length n" by (simp add: eq)
    from a b show ?thesis ..
  qed
qed

lemma bit_length_pos: "0 < n \<Longrightarrow> 0 < bit_length n"
  by (subst bit_length.simps) simp

lemma ilog2_bounds:
  assumes "0 < a"
  shows "2 powi (ilog2 a) \<le> a" and "a < 2 powi (ilog2 a + 1)"
proof -
  show "2 powi (ilog2 a) \<le> a"
  proof (cases "1 \<le> a")
    case True
    let ?n = "nat \<lfloor>a\<rfloor>"
    from True have n: "0 < ?n" by simp
    from bit_length_bounds [OF n] have "2 ^ (bit_length ?n - 1) \<le> ?n" ..
    then have "(2::rat) ^ (bit_length ?n - 1) \<le> of_nat ?n"
      by (metis of_nat_le_iff of_nat_numeral of_nat_power)
    also have "\<dots> \<le> a" using True by simp
    finally have "(2::rat) ^ (bit_length ?n - 1) \<le> a" .
    moreover have "ilog2 a = int (bit_length ?n - 1)"
      using True bit_length_pos [OF n] by (simp add: ilog2_def)
    ultimately show ?thesis by simp
  next
    case False
    let ?n = "nat (\<lceil>1 / a\<rceil> - 1)"
    from False assms have x: "1 < 1 / a" by simp
    then have c: "2 \<le> \<lceil>1 / a\<rceil>" by (simp add: le_ceiling_iff)
    then have n: "0 < ?n" by simp
    from bit_length_bounds [OF n] have "?n < 2 ^ bit_length ?n" ..
    then have "?n + 1 \<le> 2 ^ bit_length ?n" by linarith
    then have "(of_nat (?n + 1) :: rat) \<le> 2 ^ bit_length ?n"
      by (metis of_nat_le_iff of_nat_numeral of_nat_power)
    moreover have "1 / a \<le> of_nat (?n + 1)"
    proof -
      have "1 / a \<le> of_int \<lceil>1 / a\<rceil>" by (rule le_of_int_ceiling)
      also have "of_int \<lceil>1 / a\<rceil> = (of_nat (?n + 1) :: rat)"
      proof -
        from c have "0 \<le> \<lceil>1 / a\<rceil> - 1" by linarith
        then have "(of_nat ?n :: rat) = of_int (\<lceil>1 / a\<rceil> - 1)" by (rule of_nat_nat)
        then show ?thesis by simp
      qed
      finally show ?thesis .
    qed
    ultimately have "1 / a \<le> 2 ^ bit_length ?n" by linarith
    then have "1 / 2 ^ bit_length ?n \<le> a"
      using assms by (simp add: field_simps)
    moreover have "ilog2 a = - int (bit_length ?n)"
      using False by (simp add: ilog2_def)
    ultimately show ?thesis
      by (simp add: power_int_minus_divide)
  qed
  show "a < 2 powi (ilog2 a + 1)"
  proof (cases "1 \<le> a")
    case True
    let ?n = "nat \<lfloor>a\<rfloor>"
    from True have n: "0 < ?n" by simp
    from bit_length_bounds [OF n] have "?n < 2 ^ bit_length ?n" ..
    then have "?n + 1 \<le> 2 ^ bit_length ?n" by linarith
    then have "(of_nat (?n + 1) :: rat) \<le> 2 ^ bit_length ?n"
      by (metis of_nat_le_iff of_nat_numeral of_nat_power)
    moreover have "a < of_nat (?n + 1)"
    proof -
      have "a < of_int \<lfloor>a\<rfloor> + 1" by linarith
      also have "of_int \<lfloor>a\<rfloor> + 1 = (of_nat (?n + 1) :: rat)"
      proof -
        from True have "0 \<le> \<lfloor>a\<rfloor>" by simp
        then have "(of_nat ?n :: rat) = of_int \<lfloor>a\<rfloor>" by (rule of_nat_nat)
        then show ?thesis by simp
      qed
      finally show ?thesis .
    qed
    ultimately have "a < 2 ^ bit_length ?n" by linarith
    moreover have "ilog2 a + 1 = int (bit_length ?n)"
      using True by (simp add: ilog2_def)
    ultimately show ?thesis by simp
  next
    case False
    let ?n = "nat (\<lceil>1 / a\<rceil> - 1)"
    from False assms have x: "1 < 1 / a" by simp
    then have c: "2 \<le> \<lceil>1 / a\<rceil>" by (simp add: le_ceiling_iff)
    then have n: "0 < ?n" by simp
    from bit_length_bounds [OF n] have "2 ^ (bit_length ?n - 1) \<le> ?n" ..
    then have "(2::rat) ^ (bit_length ?n - 1) \<le> of_nat ?n"
      by (metis of_nat_le_iff of_nat_numeral of_nat_power)
    moreover have "of_nat ?n < 1 / a"
    proof -
      from c have "0 \<le> \<lceil>1 / a\<rceil> - 1" by linarith
      then have "(of_nat ?n :: rat) = of_int (\<lceil>1 / a\<rceil> - 1)" by (rule of_nat_nat)
      then have "(of_nat ?n :: rat) = of_int \<lceil>1 / a\<rceil> - 1" by simp
      also have "\<dots> < 1 / a"
        using ceiling_correct [of "1 / a"] by linarith
      finally show ?thesis .
    qed
    ultimately have "(2::rat) ^ (bit_length ?n - 1) < 1 / a" by linarith
    then have "a < 1 / 2 ^ (bit_length ?n - 1)"
      using assms by (simp add: field_simps)
    moreover have "ilog2 a + 1 = - int (bit_length ?n - 1)"
      using False bit_length_pos [OF n] by (simp add: ilog2_def)
    ultimately show ?thesis
      by (simp add: power_int_minus_divide)
  qed
qed

lemma pow2_less_imp: "(2::rat) powi m < 2 powi n \<Longrightarrow> m < n"
  using power_int_increasing [of n m "2::rat"] by (cases "m < n") auto

lemma pow2_le_imp: "(2::rat) powi m \<le> 2 powi n \<Longrightarrow> m \<le> n"
  using power_int_strict_increasing [of n m "2::rat"] by (cases "m \<le> n") auto

lemma round_half_even_of_int: "round_half_even (of_int n) = n"
  by (simp add: round_half_even_def)

lemma round_half_even_ge: "of_int n \<le> x \<Longrightarrow> n \<le> round_half_even x"
proof -
  assume "of_int n \<le> x"
  then have "n \<le> \<lfloor>x\<rfloor>" by (simp add: le_floor_iff)
  then show ?thesis
    by (simp add: round_half_even_def Let_def)
qed

lemma round_half_even_le: "x \<le> of_int n \<Longrightarrow> round_half_even x \<le> n"
proof (cases "x = of_int \<lfloor>x\<rfloor>")
  case True
  assume "x \<le> of_int n"
  with True have "\<lfloor>x\<rfloor> \<le> n" by (metis of_int_le_iff)
  moreover from True have "round_half_even x = \<lfloor>x\<rfloor>"
    by (metis round_half_even_of_int)
  ultimately show ?thesis by simp
next
  case False
  assume le: "x \<le> of_int n"
  have "of_int \<lfloor>x\<rfloor> \<le> x" by simp
  with False have "of_int \<lfloor>x\<rfloor> < x" by linarith
  with le have "(of_int \<lfloor>x\<rfloor> :: rat) < of_int n" by linarith
  then have "\<lfloor>x\<rfloor> < n" by simp
  then show ?thesis
    by (simp add: round_half_even_def Let_def)
qed

lemma round64_not_NaN: "round64 q \<noteq> NaN"
  by (simp add: round64_def Let_def)

lemma round64_zero: "round64 0 = Fin 0"
  by (simp add: round64_def)

text \<open>A number with a 53-bit significand and an exponent in range is left as it is.\<close>

lemma round64_double:
  assumes q: "q = of_int m * 2 powi k" and m: "\<bar>m\<bar> < 2 ^ 53" and k: "- 1074 \<le> k" "k \<le> 971"
  shows "round64 q = Fin q"
proof (cases "q = 0")
  case True
  then show ?thesis by (simp add: round64_zero)
next
  case False
  define a where "a = \<bar>q\<bar>"
  define e where "e = max (ilog2 a) (- 1022)"
  define u :: rat where "u = 2 powi (e - 52)"
  from False have a_pos: "0 < a" by (simp add: a_def)
  have a_eq: "a = of_int \<bar>m\<bar> * 2 powi k"
    by (simp add: a_def q abs_mult power_int_abs)
  have u_pos: "0 < u" by (simp add: u_def)
  have "2 powi (ilog2 a) \<le> a" using a_pos by (rule ilog2_bounds)
  also have "a < 2 ^ 53 * 2 powi k"
  proof -
    have "(of_int \<bar>m\<bar> :: rat) < 2 ^ 53" using m by (metis of_int_less_iff of_int_numeral of_int_power)
    then show ?thesis by (simp add: a_eq)
  qed
  also have "(2::rat) ^ 53 * 2 powi k = 2 powi (k + 53)"
    by (simp add: power_int_add)
  finally have "ilog2 a < k + 53"
    by (rule pow2_less_imp)
  with k have e_le: "e \<le> k + 52" by (simp add: e_def)
  define j where "j = nat (k + 52 - e)"
  from e_le have j: "int j = k + 52 - e" by (simp add: j_def)
  have "a / u = of_int \<bar>m\<bar> * (2 powi k / 2 powi (e - 52))"
    by (simp add: a_eq u_def)
  also have "2 powi k / (2::rat) powi (e - 52) = 2 powi (k - (e - 52))"
    by (simp add: power_int_diff)
  also have "k - (e - 52) = int j" by (simp add: j)
  finally have quot: "a / u = of_int (\<bar>m\<bar> * 2 ^ j)" by simp
  have r: "of_int (round_half_even (a / u)) * u = a"
  proof -
    have "of_int (round_half_even (a / u)) * u = (a / u) * u"
      unfolding quot round_half_even_of_int ..
    also have "\<dots> = a" using u_pos by simp
    finally show ?thesis .
  qed
  have "a < 2 ^ 53 * 2 powi k" by fact
  also have "\<dots> \<le> 2 ^ 53 * 2 powi 971"
  proof (rule mult_left_mono)
    show "(2::rat) powi k \<le> 2 powi 971"
      using k by (intro power_int_increasing) simp_all
    show "(0::rat) \<le> 2 ^ 53"
      by (rule zero_le_power) simp
  qed
  also have "\<dots> = 2 ^ 1024" by simp
  finally have small: "\<not> 2 ^ 1024 \<le> a" by simp
  have "sgn q * a = q" unfolding a_def by (rule sgn_mult_abs)
  then show ?thesis
    using False r small
    by (simp add: round64_def Let_def a_def [symmetric] e_def [symmetric] u_def [symmetric])
qed

lemma round64_of_int: "\<bar>n\<bar> \<le> 2 ^ 53 \<Longrightarrow> round64 (of_int n) = Fin (of_int n)"
proof (cases "\<bar>n\<bar> = 2 ^ 53")
  case True
  then have "n = 2 ^ 53 \<or> n = - (2 ^ 53)" by linarith
  then have "(of_int n :: rat) = of_int (n div 2) * 2 powi 1" by auto
  moreover have "\<bar>n div 2\<bar> < 2 ^ 53" using \<open>n = 2 ^ 53 \<or> n = - (2 ^ 53)\<close> by auto
  ultimately show ?thesis by (rule round64_double) simp_all
next
  case False
  assume "\<bar>n\<bar> \<le> 2 ^ 53"
  with False have "\<bar>n\<bar> < 2 ^ 53" by linarith
  moreover have "(of_int n :: rat) = of_int n * 2 powi 0" by simp
  ultimately show ?thesis by (intro round64_double [of _ n 0]) simp_all
qed

lemma round64_numeral: "(numeral w :: int) \<le> 2 ^ 53 \<Longrightarrow> round64 (numeral w) = Fin (numeral w)"
  using round64_of_int [of "numeral w"] by simp

lemma round64_neg_numeral:
  "(numeral w :: int) \<le> 2 ^ 53 \<Longrightarrow> round64 (- numeral w) = Fin (- numeral w)"
  using round64_of_int [of "- numeral w"] by simp

lemma round64_one: "round64 1 = Fin 1"
  using round64_of_int [of 1] by simp

lemma round64_idem:
  assumes "round64 q = Fin r"
  shows "round64 r = Fin r"
proof (cases "q = 0")
  case True
  with assms have "r = 0" by (simp add: round64_zero)
  then show ?thesis by (simp add: round64_zero)
next
  case False
  define a where "a = \<bar>q\<bar>"
  define e where "e = max (ilog2 a) (- 1022)"
  define u :: rat where "u = 2 powi (e - 52)"
  define M where "M = round_half_even (a / u)"
  define s :: int where "s = (if 0 < q then 1 else - 1)"
  from False have a_pos: "0 < a" by (simp add: a_def)
  have u_pos: "0 < u" by (simp add: u_def)
  have sgn: "sgn q = of_int s" using False by (simp add: s_def sgn_if)
  have s_abs: "\<bar>s\<bar> = 1" by (simp add: s_def)
  from assms False have fin: "\<not> 2 ^ 1024 \<le> of_int M * u" and r: "r = sgn q * (of_int M * u)"
    by (simp_all add: round64_def Let_def a_def [symmetric] e_def [symmetric] u_def [symmetric]
        M_def [symmetric] split: if_splits)
  have e_lo: "- 1022 \<le> e" and e_ge: "ilog2 a \<le> e" by (simp_all add: e_def)
  have pow_e1: "(2::rat) powi (e + 1) = 2 ^ 53 * u"
  proof -
    have "(2::rat) powi (e + 1) = 2 powi (53 + (e - 52))"
      by (rule arg_cong [where f = "\<lambda>i. 2 powi i"]) simp
    also have "\<dots> = 2 powi 53 * 2 powi (e - 52)" by (rule power_int_add) simp
    finally show ?thesis by (simp add: u_def)
  qed
  have pow_e: "(2::rat) powi e = 2 ^ 52 * u"
  proof -
    have "(2::rat) powi e = 2 powi (52 + (e - 52))"
      by (rule arg_cong [where f = "\<lambda>i. 2 powi i"]) simp
    also have "\<dots> = 2 powi 52 * 2 powi (e - 52)" by (rule power_int_add) simp
    finally show ?thesis by (simp add: u_def)
  qed
  have "a < 2 powi (ilog2 a + 1)" using a_pos by (rule ilog2_bounds)
  also have "\<dots> \<le> 2 powi (e + 1)" using e_ge by (intro power_int_increasing) simp_all
  finally have "a < 2 ^ 53 * u" by (simp only: pow_e1)
  then have "a / u < 2 ^ 53" using u_pos by (simp add: field_simps)
  then have "a / u \<le> of_int (2 ^ 53)" by simp
  then have M_hi: "M \<le> 2 ^ 53" unfolding M_def by (rule round_half_even_le)
  have "of_int 0 \<le> a / u" using a_pos u_pos by simp
  then have M_lo: "0 \<le> M" unfolding M_def by (rule round_half_even_ge)
  show ?thesis
  proof (cases "M = 2 ^ 53")
    case True
    have val: "of_int M * u = 2 powi (e + 1)" by (simp add: True pow_e1)
    with fin have "(2::rat) powi (e + 1) < 2 powi 1024" by simp
    then have "e + 1 < 1024" by (rule pow2_less_imp)
    have "(2::rat) powi (e + 1) = 2 powi (52 + (e - 51))"
      by (rule arg_cong [where f = "\<lambda>i. 2 powi i"]) simp
    also have "\<dots> = 2 powi 52 * 2 powi (e - 51)" by (rule power_int_add) simp
    finally have "of_int M * u = 2 ^ 52 * 2 powi (e - 51)" by (simp add: val)
    then have "r = of_int (s * 2 ^ 52) * 2 powi (e - 51)"
      by (simp add: r sgn)
    moreover have "\<bar>s * 2 ^ 52\<bar> < 2 ^ 53" by (simp add: abs_mult s_abs)
    moreover have "- 1074 \<le> e - 51" using e_lo by simp
    moreover have "e - 51 \<le> 971" using \<open>e + 1 < 1024\<close> by simp
    ultimately show ?thesis by (rule round64_double)
  next
    case False
    with M_hi have M_lt: "M < 2 ^ 53" by simp
    have e_hi: "e \<le> 1023"
    proof (rule ccontr)
      assume "\<not> e \<le> 1023"
      then have big: "1024 \<le> e" by simp
      then have "e = ilog2 a" by (simp add: e_def)
      then have "2 powi e \<le> a" using ilog2_bounds(1) [OF a_pos] by simp
      then have "2 ^ 52 * u \<le> a" by (simp only: pow_e)
      then have "of_int (2 ^ 52) \<le> a / u" using u_pos by (simp add: field_simps)
      then have "2 ^ 52 \<le> M" unfolding M_def by (rule round_half_even_ge)
      then have "(of_int (2 ^ 52) :: rat) \<le> of_int M" by (simp only: of_int_le_iff)
      then have "2 ^ 52 * u \<le> of_int M * u" using u_pos by simp
      then have "2 powi e \<le> of_int M * u" by (simp only: pow_e)
      moreover have "(2::rat) powi 1024 \<le> 2 powi e" using big by (intro power_int_increasing) simp_all
      ultimately have "2 powi 1024 \<le> of_int M * u" by linarith
      with fin show False by simp
    qed
    have "r = of_int (s * M) * 2 powi (e - 52)"
      by (simp add: r sgn u_def)
    moreover have "\<bar>s * M\<bar> < 2 ^ 53" using M_lo M_lt by (simp add: abs_mult s_abs)
    moreover have "- 1074 \<le> e - 52" using e_lo by simp
    moreover have "e - 52 \<le> 971" using e_hi by simp
    ultimately show ?thesis by (rule round64_double)
  qed
qed

lemma round64_overflow:
  assumes "2 ^ 1024 \<le> \<bar>q\<bar>"
  shows "round64 q = (if 0 < q then PosInf else NegInf)"
proof -
  define a where "a = \<bar>q\<bar>"
  define e where "e = max (ilog2 a) (- 1022)"
  define u :: rat where "u = 2 powi (e - 52)"
  define M where "M = round_half_even (a / u)"
  from assms have big_a: "2 powi 1024 \<le> a" by (simp add: a_def)
  then have a_pos: "0 < a" by (rule less_le_trans [rotated]) simp
  then have q: "q \<noteq> 0" by (auto simp: a_def)
  have u_pos: "0 < u" by (simp add: u_def)
  have "2 powi 1024 \<le> of_int M * u"
  proof (cases "1024 \<le> e")
    case True
    then have "e = ilog2 a" by (simp add: e_def)
    have pow_e: "(2::rat) powi e = 2 ^ 52 * u"
    proof -
      have "(2::rat) powi e = 2 powi (52 + (e - 52))"
        by (rule arg_cong [where f = "\<lambda>i. 2 powi i"]) simp
      also have "\<dots> = 2 powi 52 * 2 powi (e - 52)" by (rule power_int_add) simp
      finally show ?thesis by (simp add: u_def)
    qed
    from \<open>e = ilog2 a\<close> have "2 powi e \<le> a" using ilog2_bounds(1) [OF a_pos] by simp
    then have "2 ^ 52 * u \<le> a" by (simp only: pow_e)
    then have "of_int (2 ^ 52) \<le> a / u" using u_pos by (simp add: field_simps)
    then have "2 ^ 52 \<le> M" unfolding M_def by (rule round_half_even_ge)
    then have "(of_int (2 ^ 52) :: rat) \<le> of_int M" by (simp only: of_int_le_iff)
    then have "2 ^ 52 * u \<le> of_int M * u" using u_pos by simp
    then have "2 powi e \<le> of_int M * u" by (simp only: pow_e)
    moreover have "(2::rat) powi 1024 \<le> 2 powi e" using True by (intro power_int_increasing) simp_all
    ultimately show ?thesis by linarith
  next
    case False
    define j where "j = nat (1076 - e)"
    from False have j: "int j = 1076 - e" by (simp add: j_def)
    have "(2::rat) powi 1024 = 2 powi (int j + (e - 52))"
      by (rule arg_cong [where f = "\<lambda>i. 2 powi i"]) (simp add: j)
    also have "\<dots> = 2 powi (int j) * 2 powi (e - 52)" by (rule power_int_add) simp
    finally have p: "(2::rat) powi 1024 = of_int (2 ^ j) * u" by (simp add: u_def)
    with big_a have "of_int (2 ^ j) * u \<le> a" by simp
    then have "of_int (2 ^ j) \<le> a / u" using u_pos by (simp add: field_simps)
    then have "2 ^ j \<le> M" unfolding M_def by (rule round_half_even_ge)
    then have "(of_int (2 ^ j) :: rat) \<le> of_int M" by (simp only: of_int_le_iff)
    then have "of_int (2 ^ j) * u \<le> of_int M * u" using u_pos by simp
    then show ?thesis by (simp only: p)
  qed
  then have "2 ^ 1024 \<le> of_int M * u" by simp
  then show ?thesis
    using q
    by (simp add: round64_def Let_def a_def [symmetric] e_def [symmetric] u_def [symmetric]
        M_def [symmetric])
qed

lemma round64_two_53_plus_1: "round64 9007199254740993 = Fin 9007199254740992"
proof -
  have il: "ilog2 9007199254740993 = 53"
    by (simp add: ilog2_def bit_length.simps)
  have fl: "\<lfloor>9007199254740993 / 2 :: rat\<rfloor> = 4503599627370496"
    by (rule floor_unique) simp_all
  have rhe: "round_half_even (9007199254740993 / 2) = 4503599627370496"
    by (simp add: round_half_even_def Let_def fl)
  show ?thesis
    by (simp add: round64_def Let_def il rhe)
qed

lemma round64_neg_half: "round64 (- (1 / 2)) = Fin (- (1 / 2))"
  by (rule round64_double [of _ "- 1" "- 1"]) simp_all

lemma round64_tenth: "round64 tenth = Fin tenth"
  by (rule round64_double [of _ 3602879701896397 "- 55"]) (simp_all add: tenth_def)

lemma round64_fifth: "round64 fifth = Fin fifth"
  by (rule round64_double [of _ 3602879701896397 "- 54"]) (simp_all add: fifth_def)

lemma tenth_plus_fifth: "tenth + fifth = 10808639105689191 / 36028797018963968"
  by (simp add: tenth_def fifth_def)

lemma round64_tenth_plus_fifth:
  "round64 (tenth + fifth) = Fin (10808639105689192 / 36028797018963968)"
proof -
  have ce: "\<lceil>36028797018963968 / 10808639105689191 :: rat\<rceil> = 4"
    by (rule ceiling_unique) simp_all
  have il: "ilog2 (10808639105689191 / 36028797018963968) = - 2"
    by (simp add: ilog2_def ce bit_length.simps)
  have fl: "\<lfloor>10808639105689191 / 2 :: rat\<rfloor> = 5404319552844595"
    by (rule floor_unique) simp_all
  have rhe: "round_half_even (10808639105689191 / 2) = 5404319552844596"
    by (simp add: round_half_even_def Let_def fl)
  show ?thesis
    unfolding tenth_plus_fifth
    by (simp add: round64_def Let_def il rhe)
qed

lemma round64_huge: "round64 huge = Fin huge"
  by (rule round64_double [of _ "2 ^ 52" 971]) (simp_all add: huge_def)

lemma round64_twice_huge: "round64 (2 * huge) = PosInf"
proof -
  have "(2::rat) ^ 1024 \<le> \<bar>2 * huge\<bar>" by (simp add: huge_def)
  then have "round64 (2 * huge) = (if 0 < 2 * huge then PosInf else NegInf)"
    by (rule round64_overflow)
  moreover have "0 < 2 * huge" by (simp add: huge_def)
  ultimately show ?thesis by simp
qed

section \<open>Sums of numbers\<close>

lemma isFinite_iff: "isFinite v \<longleftrightarrow> (\<exists>q. v = Fin q)"
  by (cases v) simp_all

lemma isNaN_round64: "\<not> isNaN (round64 q)"
  using round64_not_NaN [of q] by (cases "round64 q") simp_all

lemma js_sum_Nil: "js_sum [] = Fin 0"
  by (simp add: js_sum_def)

lemma js_sum_snoc: "js_sum (xs @ [x]) = js_add (js_sum xs) x"
  by (simp add: js_sum_def)

text \<open>A sum is a double already, so that adding \<open>0\<close> to it changes nothing.\<close>

lemma js_add_rounded: "js_add (js_add x y) (Fin 0) = js_add x y"
proof (cases "js_add x y")
  case (Fin r)
  then obtain a b where "x = Fin a" "y = Fin b"
    by (cases x; cases y) simp_all
  with Fin have "round64 (a + b) = Fin r" by simp
  then have "round64 r = Fin r" by (rule round64_idem)
  with Fin show ?thesis by simp
qed simp_all

lemma js_sum_add_zero: "js_add (js_sum xs) (Fin 0) = js_sum xs"
  by (cases xs rule: rev_cases) (simp_all add: js_sum_Nil js_sum_snoc js_add_rounded round64_zero)

text \<open>Where no partial sum is rounded, the sum is the exact one.\<close>

lemma foldl_js_add_exact:
  "exact_sums_from a qs \<Longrightarrow> foldl js_add (Fin a) (map Fin qs) = Fin (a + sum_list qs)"
  by (induction qs arbitrary: a) (simp_all add: is_double_def add.assoc)

lemma js_sum_exact: "exact_sums qs \<Longrightarrow> js_sum (map Fin qs) = Fin (sum_list qs)"
  using foldl_js_add_exact [of 0 qs] by (simp add: js_sum_def exact_sums_def)

text \<open>A sum of finite numbers is finite or, once it has overflowed, an infinity.\<close>

lemma js_sum_not_NaN: "\<forall>x\<in>set xs. isFinite x \<Longrightarrow> \<not> isNaN (js_sum xs)"
proof (induction xs rule: rev_induct)
  case Nil
  show ?case by (simp add: js_sum_Nil)
next
  case (snoc x xs)
  then obtain b where "x = Fin b"
    by (auto simp: isFinite_iff)
  moreover from snoc have "\<not> isNaN (js_sum xs)" by simp
  ultimately show ?case
    by (cases "js_sum xs") (simp_all add: js_sum_snoc isNaN_round64)
qed

text \<open>Counting by adding \<open>1\<close> is exact up to \<open>2^53\<close>, where it stops.\<close>

lemma js_sum_ones_min:
  "js_sum (map (\<lambda>r. Fin 1) xs) = Fin (of_nat (min (length xs) (2 ^ 53)))"
proof (induction xs rule: rev_induct)
  case Nil
  show ?case by (simp add: js_sum_Nil)
next
  case (snoc x xs)
  have step: "js_sum (map (\<lambda>r. Fin 1) (xs @ [x])) =
      js_add (Fin (of_nat (min (length xs) (2 ^ 53)))) (Fin 1)"
    by (simp only: map_append list.map js_sum_snoc snoc.IH)
  show ?case
  proof (cases "length xs < 2 ^ 53")
    case True
    then have m1: "min (length xs) (2 ^ 53) = length xs"
      and m2: "min (length (xs @ [x])) (2 ^ 53) = Suc (length xs)"
      by simp_all
    from True have "int (length xs) + 1 \<le> 2 ^ 53"
      by (metis add.commute int_ops(4) of_nat_Suc Suc_leI of_nat_le_iff of_nat_numeral of_nat_power)
    then have "round64 (of_int (int (length xs) + 1)) = Fin (of_int (int (length xs) + 1))"
      by (intro round64_of_int) simp
    then have r: "round64 (of_nat (length xs) + 1) = Fin (of_nat (length xs) + 1)"
      by simp
    have "js_add (Fin (of_nat (length xs))) (Fin 1) = Fin (of_nat (length xs) + 1)"
      using r by simp
    also have "\<dots> = Fin (of_nat (Suc (length xs)))"
      by simp
    finally show ?thesis
      by (simp only: step m1 m2)
  next
    case False
    then have m1: "min (length xs) (2 ^ 53) = 2 ^ 53"
      and m2: "min (length (xs @ [x])) (2 ^ 53) = 2 ^ 53"
      by simp_all
    have "js_add (Fin (of_nat (2 ^ 53))) (Fin 1) = Fin (of_nat (2 ^ 53))"
      by (simp add: round64_two_53_plus_1)
    then show ?thesis
      by (simp only: step m1 m2)
  qed
qed

lemma js_sum_ones:
  "length xs \<le> 2 ^ 53 \<Longrightarrow> js_sum (map (\<lambda>r. Fin 1) xs) = Fin (of_nat (length xs))"
  by (simp add: js_sum_ones_min)

lemma isFinite_finite_or_zero: "isFinite (finite_or_zero v)"
  by (simp add: finite_or_zero_def)

lemma js_sum_filter_finite: "js_sum (map finite_or_zero xs) = js_sum (filter isFinite xs)"
  by (induction xs rule: rev_induct)
    (simp_all add: js_sum_snoc js_sum_Nil finite_or_zero_def js_sum_add_zero)

section \<open>The first loop: one aggregate per period key\<close>

lemma group_of_snoc:
  "group_of k (rows @ [r]) = (if row_key r = k then group_of k rows @ [r] else group_of k rows)"
  by (simp add: group_of_def)

lemma group_of_empty_iff: "group_of k rows = [] \<longleftrightarrow> k \<notin> row_key ` set rows"
  by (auto simp: group_of_def filter_empty_conv)

lemma agg_spec_snoc_same:
  "agg_spec (rows @ [r]) (row_key r) =
     \<lparr>agg_CommitmentAmt = js_add (agg_CommitmentAmt (agg_spec rows (row_key r))) (finite_or_zero (row_ca r)),
      agg_OutstandingAmt = js_add (agg_OutstandingAmt (agg_spec rows (row_key r))) (finite_or_zero (row_oa r)),
      agg_Deals = js_add (agg_Deals (agg_spec rows (row_key r))) (Fin 1)\<rparr>"
  by (simp add: agg_spec_def group_of_snoc js_sum_snoc)

lemma agg_spec_snoc_other: "row_key r \<noteq> k \<Longrightarrow> agg_spec (rows @ [r]) k = agg_spec rows k"
  by (simp add: agg_spec_def group_of_snoc)

lemma agg_spec_absent:
  "k \<notin> row_key ` set rows \<Longrightarrow>
     agg_spec rows k = \<lparr>agg_CommitmentAmt = Fin 0, agg_OutstandingAmt = Fin 0, agg_Deals = Fin 0\<rparr>"
  using group_of_empty_iff [of k rows] by (simp add: agg_spec_def js_sum_Nil)

lemma aggregate_snoc: "aggregate (rows @ [r]) = agg_step (aggregate rows) r"
  by (simp add: aggregate_def)

lemma map_of_aggregate:
  "map_of (aggregate rows) k = (if k \<in> row_key ` set rows then Some (agg_spec rows k) else None)"
proof (induction rows rule: rev_induct)
  case Nil
  show ?case by (simp add: aggregate_def)
next
  case (snoc r rows)
  show ?case
  proof (cases "row_key r = k")
    case True
    have cur: "(case map_of (aggregate rows) k of Some c \<Rightarrow> c
                | None \<Rightarrow> \<lparr>agg_CommitmentAmt = Fin 0, agg_OutstandingAmt = Fin 0, agg_Deals = Fin 0\<rparr>)
               = agg_spec rows k"
      using snoc.IH by (simp add: agg_spec_absent)
    from True have k: "k = row_key r" by simp
    show ?thesis
      using cur unfolding k
      by (simp add: aggregate_snoc agg_step_def Let_def update_conv' agg_spec_snoc_same
          finite_or_zero_def)
  next
    case False
    then show ?thesis
      using snoc.IH
      by (auto simp: aggregate_snoc agg_step_def Let_def update_conv' agg_spec_snoc_other)
  qed
qed

lemma keys_aggregate: "set (map fst (aggregate rows)) = row_key ` set rows"
proof -
  have "fst ` set (aggregate rows) = dom (map_of (aggregate rows))"
    by (simp add: dom_map_of_conv_image_fst)
  also have "\<dots> = row_key ` set rows"
    by (auto simp: map_of_aggregate dom_def)
  finally show ?thesis by simp
qed

lemma distinct_aggregate: "distinct (map fst (aggregate rows))"
proof (induction rows rule: rev_induct)
  case Nil
  show ?case by (simp add: aggregate_def)
next
  case (snoc r rows)
  then show ?case
    by (simp add: aggregate_snoc agg_step_def Let_def distinct_update)
qed

lemma agg_Deals_agg_spec:
  "agg_Deals (agg_spec rows k) = Fin (of_nat (min (length (group_of k rows)) (2 ^ 53)))"
  by (simp add: agg_spec_def js_sum_ones_min)

lemma agg_spec_not_NaN:
  "\<not> isNaN (agg_CommitmentAmt (agg_spec rows k))"
  "\<not> isNaN (agg_OutstandingAmt (agg_spec rows k))"
  by (simp_all add: agg_spec_def js_sum_not_NaN isFinite_finite_or_zero)

section \<open>The sorted keys\<close>

lemma set_periods: "set (periods rows) = row_key ` set rows"
  using keys_aggregate [of rows] by (simp add: periods_def dates_of_def)

lemma distinct_periods: "distinct (periods rows)"
  by (simp add: periods_def dates_of_def distinct_aggregate)

lemma sorted_periods: "sorted_wrt (<) (periods rows)"
  by (simp add: strict_sorted_iff distinct_periods) (simp add: periods_def dates_of_def)

lemma length_periods: "length (periods rows) = card (row_key ` set rows)"
  using distinct_card [OF distinct_periods, of rows] by (simp add: set_periods)

lemma periods_nonempty: "rows \<noteq> [] \<Longrightarrow> periods rows \<noteq> []"
  using set_periods [of rows] by (cases rows) auto

lemma group_of_nonempty: "k \<in> set (periods rows) \<Longrightarrow> group_of k rows \<noteq> []"
  by (simp add: set_periods group_of_empty_iff)

lemma deals_agg_spec:
  "k \<in> set (periods rows) \<Longrightarrow>
   \<exists>n. 1 \<le> n \<and> agg_Deals (agg_spec rows k) = Fin (of_nat n)"
proof -
  assume "k \<in> set (periods rows)"
  then have "group_of k rows \<noteq> []"
    by (rule group_of_nonempty)
  then have "1 \<le> length (group_of k rows)"
    by (cases "group_of k rows") simp_all
  then have "1 \<le> min (length (group_of k rows)) (2 ^ 53)"
    by simp
  then show ?thesis
    using agg_Deals_agg_spec [of rows k] by blast
qed

section \<open>The second loop: one record per key, with its predecessor\<close>

lemma build_records_eq:
  "\<forall>k\<in>set keys. map_of m k = Some (f k) \<Longrightarrow>
   build_records m prev keys = Inr (records_from prev (map (\<lambda>k. (k, f k)) keys))"
  by (induction keys arbitrary: prev) simp_all

lemma length_records_from: "length (records_from prev es) = length es"
  by (induction es arbitrary: prev) simp_all

lemma records_from_nth:
  "i < length es \<Longrightarrow>
   records_from prev es ! i =
     mk_record (fst (es ! i)) (snd (es ! i)) (if i = 0 then prev else Some (es ! (i - 1)))"
proof (induction es arbitrary: prev i)
  case Nil
  then show ?case by simp
next
  case (Cons e es)
  show ?case
  proof (cases i)
    case 0
    then show ?thesis by simp
  next
    case (Suc j)
    with Cons.prems have "j < length es" by simp
    from Cons.IH [OF this, of "Some e"] Suc show ?thesis
      by (cases j) simp_all
  qed
qed

lemma map_key_records_from: "map ProcessingDateKey (records_from prev es) = map fst es"
  by (induction es arbitrary: prev) (simp_all add: mk_record_def)

lemma length_summaries: "length (summaries rows) = length (periods rows)"
  by (simp add: summaries_def)

lemma summaries_nth:
  "i < length (periods rows) \<Longrightarrow> summaries rows ! i = (periods rows ! i, agg_spec rows (periods rows ! i))"
  by (simp add: summaries_def)

lemma map_fst_summaries: "map fst (summaries rows) = periods rows"
  by (simp add: summaries_def comp_def)

lemma engine_eq: "engine rows = Inr (records_from None (summaries rows))"
proof -
  have "\<forall>k\<in>set (periods rows). map_of (aggregate rows) k = Some (agg_spec rows k)"
    by (simp add: set_periods map_of_aggregate)
  from build_records_eq [OF this] show ?thesis
    by (simp add: engine_def Let_def periods_def summaries_def)
qed

lemma engine_nth:
  "i < length (periods rows) \<Longrightarrow>
   records_from None (summaries rows) ! i =
     mk_record (periods rows ! i) (agg_spec rows (periods rows ! i))
       (if i = 0 then None
        else Some (periods rows ! (i - 1), agg_spec rows (periods rows ! (i - 1))))"
  by (simp add: records_from_nth length_summaries summaries_nth)

lemma length_engine: "length (records_from None (summaries rows)) = length (periods rows)"
  by (simp add: length_records_from length_summaries)

lemma keys_engine: "map ProcessingDateKey (records_from None (summaries rows)) = periods rows"
  by (simp add: map_key_records_from map_fst_summaries)

lemma engine_first:
  assumes "rows \<noteq> []"
  shows "\<exists>e es. summaries rows = e # es \<and>
           engine rows = Inr (mk_record (fst e) (snd e) None # records_from (Some e) es)"
proof -
  from assms have "periods rows \<noteq> []"
    by (rule periods_nonempty)
  then have "summaries rows \<noteq> []"
    by (simp add: summaries_def)
  then obtain e es where "summaries rows = e # es"
    by (cases "summaries rows") auto
  then show ?thesis
    by (simp add: engine_eq)
qed

lemma simulateQueryExecution_success:
  "simulateQueryExecution \<lparr>success = True, data = Some rows, error = e\<rparr> = engine rows"
  by (simp add: simulateQueryExecution_def)

lemma simulateQueryExecution_failure:
  "simulateQueryExecution \<lparr>success = False, data = rows, error = None\<rparr> =
     Inl (Error ''Query failed'')"
  by (simp add: simulateQueryExecution_def)

section \<open>The ratios\<close>

lemma diff_of_Fin:
  "X p = Fin b \<Longrightarrow>
   diff_of X cur (Some (pk, p)) =
     (if 0 < b then Some (js_div (js_sub (X cur) (Fin b)) (Fin b)) else None)"
  by (simp add: diff_of_def)

lemma diff_of_None: "diff_of X cur None = None"
  by (simp add: diff_of_def)



section \<open>The engine on the example inputs\<close>

text \<open>Equations that evaluate the engine on a concrete list of rows.\<close>

lemma String_date_key:
  "n \<le> 2 ^ 53 \<Longrightarrow> String (nullish_key (date_key n) b) = string_of_nat n"
  by (simp add: date_key_def Abs_safe_integer_inverse)

lemmas eval_row = camel_row_def row_key_def row_ca_def row_oa_def String_date_key
  string_of_nat.simps digit_char_def

lemmas eval_round = round64_zero round64_one round64_numeral round64_neg_numeral
  round64_neg_half

lemmas eval_engine = engine_def aggregate_def agg_step_def dates_of_def mk_record_def
  diff_of_def js_sub_def Let_def eval_round

lemma example_engine:
  "engine example_rows =
     Inr [\<lparr>ProcessingDateKey = ''20240131'', CommitmentAmt = Fin 1500000, Deals = Fin 2,
           OutstandingAmt = Fin 1250000, ProcessingDateKeyPrior = ''0'',
           CommitmentAmtPrior = Fin 0, OutstandingAmtPrior = Fin 0, DealsPrior = Fin 0,
           ca_diff = None, oa_diff = None, deals_diff = None,
           ca_model_diff = None, oa_model_diff = None, deals_model_diff = None\<rparr>,
          \<lparr>ProcessingDateKey = ''20240229'', CommitmentAmt = Fin 1600000, Deals = Fin 2,
           OutstandingAmt = Fin 1250000, ProcessingDateKeyPrior = ''20240131'',
           CommitmentAmtPrior = Fin 1500000, OutstandingAmtPrior = Fin 1250000,
           DealsPrior = Fin 2,
           ca_diff = Some (round64 (1 / 15)), oa_diff = Some (Fin 0), deals_diff = Some (Fin 0),
           ca_model_diff = None, oa_model_diff = None, deals_model_diff = None\<rparr>]"
  by (simp add: example_rows_def eval_row eval_engine)

lemma single_engine:
  "engine single_row =
     Inr [\<lparr>ProcessingDateKey = ''20240131'', CommitmentAmt = Fin 1000000, Deals = Fin 1,
           OutstandingAmt = Fin 800000, ProcessingDateKeyPrior = ''0'',
           CommitmentAmtPrior = Fin 0, OutstandingAmtPrior = Fin 0, DealsPrior = Fin 0,
           ca_diff = None, oa_diff = None, deals_diff = None,
           ca_model_diff = None, oa_model_diff = None, deals_model_diff = None\<rparr>]"
  by (simp add: single_row_def eval_row eval_engine)


lemma irregular_engine:
  "engine irregular_rows =
     Inr [\<lparr>ProcessingDateKey = ''20240131'', CommitmentAmt = Fin 100, Deals = Fin 3,
           OutstandingAmt = Fin 150, ProcessingDateKeyPrior = ''0'',
           CommitmentAmtPrior = Fin 0, OutstandingAmtPrior = Fin 0, DealsPrior = Fin 0,
           ca_diff = None, oa_diff = None, deals_diff = None,
           ca_model_diff = None, oa_model_diff = None, deals_model_diff = None\<rparr>]"
  by (simp add: irregular_rows_def eval_row eval_engine)

lemma fraction_engine:
  "engine fraction_rows =
     Inr [\<lparr>ProcessingDateKey = ''20240131'',
           CommitmentAmt = Fin (10808639105689192 / 36028797018963968), Deals = Fin 2,
           OutstandingAmt = Fin 0, ProcessingDateKeyPrior = ''0'',
           CommitmentAmtPrior = Fin 0, OutstandingAmtPrior = Fin 0, DealsPrior = Fin 0,
           ca_diff = None, oa_diff = None, deals_diff = None,
           ca_model_diff = None, oa_model_diff = None, deals_model_diff = None\<rparr>]"
  by (simp add: fraction_rows_def eval_row eval_engine round64_tenth round64_tenth_plus_fifth)

lemma huge_engine:
  "engine huge_rows =
     Inr [\<lparr>ProcessingDateKey = ''20240131'', CommitmentAmt = PosInf, Deals = Fin 2,
           OutstandingAmt = Fin 0, ProcessingDateKeyPrior = ''0'',
           CommitmentAmtPrior = Fin 0, OutstandingAmtPrior = Fin 0, DealsPrior = Fin 0,
           ca_diff = None, oa_diff = None, deals_diff = None,
           ca_model_diff = None, oa_model_diff = None, deals_model_diff = None\<rparr>]"
  by (simp add: huge_rows_def eval_row eval_engine round64_huge round64_twice_huge)

section \<open>Digit strings and their order\<close>

lemma foldl_key_num:
  "foldl (\<lambda>a c. 10 * a + digit_val c) a s = a * 10 ^ length s + key_num s"
  unfolding key_num_def
proof (induction s arbitrary: a)
  case Nil
  show ?case by simp
next
  case (Cons c s)
  show ?case
    using Cons.IH [of "10 * a + digit_val c"] Cons.IH [of "digit_val c"]
    by (simp add: algebra_simps)
qed

lemma key_num_Cons: "key_num (c # s) = digit_val c * 10 ^ length s + key_num s"
  using foldl_key_num [of "digit_val c" s] by (simp add: key_num_def)

lemma key_num_snoc: "key_num (s @ [c]) = 10 * key_num s + digit_val c"
  by (simp add: key_num_def)

lemma digit_val_less: "is_digit c \<Longrightarrow> digit_val c < 10"
  by (auto simp: is_digit_def digit_val_def less_eq_char_def)

lemma digit_less_iff: "is_digit c \<Longrightarrow> is_digit d \<Longrightarrow> c < d \<longleftrightarrow> digit_val c < digit_val d"
  by (auto simp: is_digit_def digit_val_def less_eq_char_def less_char_def)

lemma key_num_less: "\<forall>c\<in>set s. is_digit c \<Longrightarrow> key_num s < 10 ^ length s"
proof (induction s)
  case Nil
  show ?case by (simp add: key_num_def)
next
  case (Cons c s)
  then have "digit_val c < 10" and "key_num s < 10 ^ length s"
    by (simp_all add: digit_val_less)
  then have "digit_val c * 10 ^ length s + key_num s < (digit_val c + 1) * 10 ^ length s"
    by simp
  also have "\<dots> \<le> 10 * 10 ^ length s"
    using \<open>digit_val c < 10\<close> by (intro mult_le_mono1) simp
  finally show ?case
    by (simp add: key_num_Cons)
qed

lemma key_num_mono:
  "length s = length t \<Longrightarrow> \<forall>c\<in>set s. is_digit c \<Longrightarrow> \<forall>c\<in>set t. is_digit c \<Longrightarrow> s < t \<Longrightarrow>
   key_num s < key_num t"
proof (induction s t rule: list_induct2)
  case Nil
  then show ?case by simp
next
  case (Cons c s d t)
  from Cons.prems have digits: "is_digit c" "is_digit d"
    "\<forall>c\<in>set s. is_digit c" "\<forall>c\<in>set t. is_digit c"
    by simp_all
  from Cons.prems have "c < d \<or> c = d \<and> s < t"
    by simp
  then show ?case
  proof
    assume "c < d"
    then have "digit_val c + 1 \<le> digit_val d"
      using digits by (simp add: digit_less_iff)
    then have "(digit_val c + 1) * 10 ^ length s \<le> digit_val d * 10 ^ length s"
      by (rule mult_le_mono1)
    moreover have "key_num s < 10 ^ length s"
      using digits by (simp add: key_num_less)
    ultimately have "digit_val c * 10 ^ length s + key_num s < digit_val d * 10 ^ length s + key_num t"
      by simp
    then show ?thesis
      using Cons.hyps by (simp add: key_num_Cons)
  next
    assume "c = d \<and> s < t"
    then have "key_num s < key_num t" and "c = d"
      using Cons.IH digits by simp_all
    then show ?thesis
      using Cons.hyps by (simp add: key_num_Cons)
  qed
qed

lemma is_digit_digit_char: "d < 10 \<Longrightarrow> is_digit (digit_char d)"
proof -
  assume "d < 10"
  then have "d \<in> {0, 1, 2, 3, 4, 5, 6, 7, 8, 9}"
    by auto
  then show ?thesis
    by (auto simp: is_digit_def digit_char_def less_eq_char_def)
qed

lemma digit_val_digit_char: "d < 10 \<Longrightarrow> digit_val (digit_char d) = d"
proof -
  assume "d < 10"
  then have "d \<in> {0, 1, 2, 3, 4, 5, 6, 7, 8, 9}"
    by auto
  then show ?thesis
    by (auto simp: digit_val_def digit_char_def)
qed

lemma digits_string_of_nat: "\<forall>c\<in>set (string_of_nat n). is_digit c"
proof (induction n rule: string_of_nat.induct)
  case (1 n)
  show ?case
  proof (cases "n < 10")
    case True
    then show ?thesis
      by (subst string_of_nat.simps) (simp add: is_digit_digit_char)
  next
    case False
    with "1.IH" show ?thesis
      by (subst string_of_nat.simps) (simp add: is_digit_digit_char)
  qed
qed

lemma key_num_string_of_nat: "key_num (string_of_nat n) = n"
proof (induction n rule: string_of_nat.induct)
  case (1 n)
  show ?case
  proof (cases "n < 10")
    case True
    then show ?thesis
      by (subst string_of_nat.simps) (simp add: key_num_def digit_val_digit_char)
  next
    case False
    with "1.IH" show ?thesis
      by (subst string_of_nat.simps) (simp add: key_num_snoc digit_val_digit_char)
  qed
qed

lemma length_string_of_nat:
  "10 ^ k \<le> n \<Longrightarrow> n < 10 ^ Suc k \<Longrightarrow> length (string_of_nat n) = Suc k"
proof (induction k arbitrary: n)
  case 0
  then show ?case
    by (subst string_of_nat.simps) simp
next
  case (Suc k)
  from Suc.prems have "\<not> n < 10"
    by (metis le_less_trans not_le one_le_numeral one_le_power power_Suc2 mult.commute
        mult_le_mono2 nat_mult_1_right)
  moreover from Suc.prems have "10 ^ k \<le> n div 10" "n div 10 < 10 ^ Suc k"
    by (simp_all add: less_mult_imp_div_less mult.commute)
  ultimately show ?case
    using Suc.IH [of "n div 10"] by (subst string_of_nat.simps) simp
qed

lemma eight_digits_string_of_nat:
  "10000000 \<le> n \<Longrightarrow> n < 100000000 \<Longrightarrow> eight_digits (string_of_nat n)"
  using length_string_of_nat [of 7 n] digits_string_of_nat [of n]
  by (simp add: eight_digits_def)

section \<open>Grouping and totals\<close>

text \<open>
  Claim C1, as amended.  The claim has each total equal the sum of the amounts.  The
  engine adds doubles: for rows whose amounts are all finite numbers (an array holds fewer
  than \<open>2^32\<close> of them), it returns one record per distinct period key of the input,
  and no other record; in the record of a period \<open>Deals\<close> is the number of the rows of
  that period, and \<open>CommitmentAmt\<close> and \<open>OutstandingAmt\<close> are the sums of their
  commitment and outstanding amounts as JavaScript adds them, in input order with every
  partial sum rounded to a double.  Such a total is the sum of the amounts when no
  partial sum needs rounding.  No rows give no records, and not an error, also through
  \<open>simulateQueryExecution\<close> on a successful response.
\<close>

theorem engine_groups_by_period:
  assumes "\<forall>r\<in>set rows. isFinite (row_ca r) \<and> isFinite (row_oa r)"
    and "length rows < 2 ^ 32"
  shows "engine [] = Inr [] \<and>
    simulateQueryExecution \<lparr>success = True, data = Some [], error = None\<rparr> = Inr [] \<and>
    (\<exists>out. engine rows = Inr out \<and>
       distinct (map ProcessingDateKey out) \<and>
       set (map ProcessingDateKey out) = row_key ` set rows \<and>
       length out = card (row_key ` set rows) \<and>
       (\<forall>rec\<in>set out.
          CommitmentAmt rec = js_sum (map row_ca (group_of (ProcessingDateKey rec) rows)) \<and>
          OutstandingAmt rec = js_sum (map row_oa (group_of (ProcessingDateKey rec) rows)) \<and>
          Deals rec = Fin (of_nat (length (group_of (ProcessingDateKey rec) rows))) \<and>
          (exact_sums (map (\<lambda>r. fin_val (row_ca r)) (group_of (ProcessingDateKey rec) rows)) \<longrightarrow>
             CommitmentAmt rec =
               Fin (sum_list (map (\<lambda>r. fin_val (row_ca r))
                      (group_of (ProcessingDateKey rec) rows)))) \<and>
          (exact_sums (map (\<lambda>r. fin_val (row_oa r)) (group_of (ProcessingDateKey rec) rows)) \<longrightarrow>
             OutstandingAmt rec =
               Fin (sum_list (map (\<lambda>r. fin_val (row_oa r))
                      (group_of (ProcessingDateKey rec) rows))))))"
proof -
  let ?out = "records_from None (summaries rows)"
  have keys: "map ProcessingDateKey ?out = periods rows"
    by (simp add: map_key_records_from map_fst_summaries)
  have len: "length ?out = length (periods rows)"
    by (simp add: length_records_from length_summaries)
  have rows_ok:
    "CommitmentAmt rec = js_sum (map row_ca (group_of (ProcessingDateKey rec) rows)) \<and>
     OutstandingAmt rec = js_sum (map row_oa (group_of (ProcessingDateKey rec) rows)) \<and>
     Deals rec = Fin (of_nat (length (group_of (ProcessingDateKey rec) rows))) \<and>
     (exact_sums (map (\<lambda>r. fin_val (row_ca r)) (group_of (ProcessingDateKey rec) rows)) \<longrightarrow>
        CommitmentAmt rec =
          Fin (sum_list (map (\<lambda>r. fin_val (row_ca r))
                 (group_of (ProcessingDateKey rec) rows)))) \<and>
     (exact_sums (map (\<lambda>r. fin_val (row_oa r)) (group_of (ProcessingDateKey rec) rows)) \<longrightarrow>
        OutstandingAmt rec =
          Fin (sum_list (map (\<lambda>r. fin_val (row_oa r))
                 (group_of (ProcessingDateKey rec) rows))))"
    if "rec \<in> set ?out" for rec
  proof -
    from that obtain i where i: "i < length (periods rows)" and rec: "rec = ?out ! i"
      by (auto simp: in_set_conv_nth len)
    let ?k = "periods rows ! i"
    let ?g = "group_of ?k rows"
    have rec_eq: "rec = mk_record ?k (agg_spec rows ?k)
                    (if i = 0 then None else Some (summaries rows ! (i - 1)))"
      using i rec by (simp add: records_from_nth length_summaries summaries_nth)
    have key: "ProcessingDateKey rec = ?k"
      by (simp add: rec_eq mk_record_def)
    have fin: "\<forall>r\<in>set ?g. isFinite (row_ca r) \<and> isFinite (row_oa r)"
      using assms(1) by (simp add: group_of_def)
    have m_ca: "map (\<lambda>r. finite_or_zero (row_ca r)) ?g = map row_ca ?g"
      using fin by (simp add: finite_or_zero_def)
    have ca: "CommitmentAmt rec = js_sum (map row_ca ?g)"
      by (simp add: rec_eq mk_record_def agg_spec_def m_ca)
    have m_oa: "map (\<lambda>r. finite_or_zero (row_oa r)) ?g = map row_oa ?g"
      using fin by (simp add: finite_or_zero_def)
    have oa: "OutstandingAmt rec = js_sum (map row_oa ?g)"
      by (simp add: rec_eq mk_record_def agg_spec_def m_oa)
    have "length ?g \<le> length rows"
      by (simp add: group_of_def)
    moreover have "(2::nat) ^ 32 \<le> 2 ^ 53"
      by simp
    ultimately have "length ?g \<le> 2 ^ 53"
      using assms(2) by linarith
    then have deals: "Deals rec = Fin (of_nat (length ?g))"
      by (simp add: rec_eq mk_record_def agg_spec_def js_sum_ones)
    have cs: "map row_ca ?g = map Fin (map (\<lambda>r. fin_val (row_ca r)) ?g)"
      using fin by (auto simp: isFinite_iff)
    have os: "map row_oa ?g = map Fin (map (\<lambda>r. fin_val (row_oa r)) ?g)"
      using fin by (auto simp: isFinite_iff)
    have exact_ca: "CommitmentAmt rec = Fin (sum_list (map (\<lambda>r. fin_val (row_ca r)) ?g))"
      if "exact_sums (map (\<lambda>r. fin_val (row_ca r)) ?g)"
      using js_sum_exact [OF that] ca cs by simp
    have exact_oa: "OutstandingAmt rec = Fin (sum_list (map (\<lambda>r. fin_val (row_oa r)) ?g))"
      if "exact_sums (map (\<lambda>r. fin_val (row_oa r)) ?g)"
      using js_sum_exact [OF that] oa os by simp
    from ca oa deals exact_ca exact_oa show ?thesis
      unfolding key by blast
  qed
  have empty: "engine [] = Inr []"
    by (simp add: engine_def aggregate_def dates_of_def)
  then have "simulateQueryExecution \<lparr>success = True, data = Some [], error = None\<rparr> = Inr []"
    by (simp add: simulateQueryExecution_def)
  moreover note empty
  moreover have "engine rows = Inr ?out"
    by (rule engine_eq)
  moreover have "distinct (map ProcessingDateKey ?out)"
    by (simp add: keys distinct_periods)
  moreover have "set (map ProcessingDateKey ?out) = row_key ` set rows"
    by (simp add: keys set_periods)
  moreover have "length ?out = card (row_key ` set rows)"
    by (simp add: len length_periods)
  ultimately show ?thesis
    using rows_ok by blast
qed

theorem engine_groups_by_period_witness:
  "isFinite (row_ca (camel_row 20240131 1000000 800000)) \<and>
   isFinite (row_oa (camel_row 20240229 400000 350000)) \<and>
   length example_rows < 2 ^ 32 \<and>
   map (\<lambda>r. fin_val (row_ca r)) (group_of ''20240131'' example_rows) = [1000000, 500000] \<and>
   exact_sums [1000000, 500000] \<and>
   (\<exists>out. engine example_rows = Inr out \<and>
      map ProcessingDateKey out = [''20240131'', ''20240229''] \<and>
      length out = card (row_key ` set example_rows) \<and>
      map CommitmentAmt out = [Fin 1500000, Fin 1600000] \<and>
      map OutstandingAmt out = [Fin 1250000, Fin 1250000] \<and>
      map Deals out = [Fin 2, Fin 2])"
proof -
  have fin: "\<forall>r\<in>set example_rows. isFinite (row_ca r) \<and> isFinite (row_oa r)"
    by (simp add: example_rows_def camel_row_def row_ca_def row_oa_def)
  have small: "length example_rows < 2 ^ 32"
    by (simp add: example_rows_def)
  from engine_groups_by_period [OF fin small] obtain out where
    out: "engine example_rows = Inr out" and len: "length out = card (row_key ` set example_rows)"
    by blast
  have group: "map (\<lambda>r. fin_val (row_ca r)) (group_of ''20240131'' example_rows) =
      [1000000, 500000]"
    by (simp add: group_of_def example_rows_def eval_row)
  from out have "out = projr (engine example_rows)" by simp
  with out len small group show ?thesis
    by (simp add: example_engine)
      (simp add: camel_row_def row_ca_def row_oa_def exact_sums_def is_double_def eval_round)
qed

text \<open>
  The claim as stated fails on one period that holds the doubles nearest to 0.1 and to
  0.2 as commitments: their sum is \<open>10808639105689191 / 2^55\<close>, and the total of the
  engine is \<open>10808639105689192 / 2^55\<close>, the number that JavaScript prints as
  0.30000000000000004.
\<close>

theorem rounded_sum_counterexample:
  "map row_ca fraction_rows = [Fin tenth, Fin fifth] \<and>
   is_double tenth \<and> is_double fifth \<and>
   tenth + fifth = 10808639105689191 / 36028797018963968 \<and>
   engine fraction_rows =
     Inr [\<lparr>ProcessingDateKey = ''20240131'',
           CommitmentAmt = Fin (10808639105689192 / 36028797018963968), Deals = Fin 2,
           OutstandingAmt = Fin 0, ProcessingDateKeyPrior = ''0'',
           CommitmentAmtPrior = Fin 0, OutstandingAmtPrior = Fin 0, DealsPrior = Fin 0,
           ca_diff = None, oa_diff = None, deals_diff = None,
           ca_model_diff = None, oa_model_diff = None, deals_model_diff = None\<rparr>]"
  by (simp add: fraction_engine tenth_plus_fifth is_double_def round64_tenth round64_fifth)
    (simp add: fraction_rows_def camel_row_def row_ca_def)

text \<open>
  Claim C10, as amended.  The claim has the totals finite for every input.  A row whose
  commitment or outstanding amount is missing, \<open>NaN\<close> or infinite is not dropped: every
  row of a period is counted in \<open>Deals\<close> (an array holds fewer than \<open>2^32\<close> rows), while
  each total is the sum of the finite amounts alone, so such an amount adds nothing; a
  missing amount is read as the number \<open>0\<close>.  A total is never \<open>NaN\<close>: it is a finite
  number or, where the sum of the finite amounts leaves the range of a double, an
  infinity.
\<close>

theorem non_finite_amounts_add_zero:
  assumes "length rows < 2 ^ 32"
  shows "(\<exists>out. engine rows = Inr out \<and>
      set (map ProcessingDateKey out) = row_key ` set rows \<and>
      (\<forall>rec\<in>set out.
         Deals rec = Fin (of_nat (length (group_of (ProcessingDateKey rec) rows))) \<and>
         CommitmentAmt rec =
           js_sum (filter isFinite (map row_ca (group_of (ProcessingDateKey rec) rows))) \<and>
         OutstandingAmt rec =
           js_sum (filter isFinite (map row_oa (group_of (ProcessingDateKey rec) rows))) \<and>
         \<not> isNaN (CommitmentAmt rec) \<and> \<not> isNaN (OutstandingAmt rec))) \<and>
   (\<forall>r. row_CommitmentAmt r = None \<and> row_commitmentamt r = None \<longrightarrow> row_ca r = Fin 0) \<and>
   (\<forall>r. row_OutstandingAmt r = None \<and> row_outstandingamt r = None \<longrightarrow> row_oa r = Fin 0)"
proof -
  let ?out = "records_from None (summaries rows)"
  have rec_ok:
    "Deals rec = Fin (of_nat (length (group_of (ProcessingDateKey rec) rows))) \<and>
     CommitmentAmt rec =
       js_sum (filter isFinite (map row_ca (group_of (ProcessingDateKey rec) rows))) \<and>
     OutstandingAmt rec =
       js_sum (filter isFinite (map row_oa (group_of (ProcessingDateKey rec) rows))) \<and>
     \<not> isNaN (CommitmentAmt rec) \<and> \<not> isNaN (OutstandingAmt rec)"
    if "rec \<in> set ?out" for rec
  proof -
    from that obtain i where i: "i < length (periods rows)" and rec: "rec = ?out ! i"
      by (auto simp: in_set_conv_nth length_engine)
    let ?k = "periods rows ! i"
    have fields: "ProcessingDateKey rec = ?k" "Deals rec = agg_Deals (agg_spec rows ?k)"
      "CommitmentAmt rec = agg_CommitmentAmt (agg_spec rows ?k)"
      "OutstandingAmt rec = agg_OutstandingAmt (agg_spec rows ?k)"
      using i rec by (simp_all add: engine_nth mk_record_def)
    have ca: "agg_CommitmentAmt (agg_spec rows ?k) =
                js_sum (filter isFinite (map row_ca (group_of ?k rows)))"
      using js_sum_filter_finite [of "map row_ca (group_of ?k rows)"]
      by (simp add: agg_spec_def comp_def)
    have oa: "agg_OutstandingAmt (agg_spec rows ?k) =
                js_sum (filter isFinite (map row_oa (group_of ?k rows)))"
      using js_sum_filter_finite [of "map row_oa (group_of ?k rows)"]
      by (simp add: agg_spec_def comp_def)
    have "length (group_of ?k rows) \<le> length rows"
      by (simp add: group_of_def)
    moreover have "(2::nat) ^ 32 \<le> 2 ^ 53"
      by simp
    ultimately have "length (group_of ?k rows) \<le> 2 ^ 53"
      using assms by linarith
    then have deals: "agg_Deals (agg_spec rows ?k) = Fin (of_nat (length (group_of ?k rows)))"
      by (simp add: agg_spec_def js_sum_ones)
    show ?thesis
      unfolding fields using ca oa deals agg_spec_not_NaN [of rows ?k] by simp
  qed
  have "engine rows = Inr ?out"
    by (rule engine_eq)
  moreover have "set (map ProcessingDateKey ?out) = row_key ` set rows"
    by (simp add: keys_engine set_periods)
  moreover have "\<forall>r. row_CommitmentAmt r = None \<and> row_commitmentamt r = None \<longrightarrow> row_ca r = Fin 0"
    by (simp add: row_ca_def)
  moreover have "\<forall>r. row_OutstandingAmt r = None \<and> row_outstandingamt r = None \<longrightarrow> row_oa r = Fin 0"
    by (simp add: row_oa_def)
  ultimately show ?thesis
    using rec_ok by blast
qed

theorem non_finite_amounts_add_zero_witness:
  "length irregular_rows < 2 ^ 32 \<and>
   (\<exists>out. engine irregular_rows = Inr out \<and>
     map Deals out = [Fin 3] \<and> map CommitmentAmt out = [Fin 100] \<and>
     map OutstandingAmt out = [Fin 150] \<and>
     map row_ca irregular_rows = [NaN, Fin 0, Fin 100] \<and>
     map row_oa irregular_rows = [Fin 70, PosInf, Fin 80] \<and>
     map row_key irregular_rows = [''20240131'', ''20240131'', ''20240131''])"
proof -
  have small: "length irregular_rows < 2 ^ 32"
    by (simp add: irregular_rows_def)
  from non_finite_amounts_add_zero [OF small] obtain out where
    out: "engine irregular_rows = Inr out"
    by blast
  then have "out = projr (engine irregular_rows)"
    by simp
  with out small show ?thesis
    by (simp add: irregular_engine) (simp add: irregular_rows_def eval_row)
qed

text \<open>
  The claim as stated fails on one period that holds the double \<open>2^1023\<close> twice as a
  commitment: both amounts are finite, and their total is \<open>Infinity\<close>.
\<close>

theorem overflowing_total_counterexample:
  "map row_ca huge_rows = [Fin huge, Fin huge] \<and>
   is_double huge \<and>
   engine huge_rows =
     Inr [\<lparr>ProcessingDateKey = ''20240131'', CommitmentAmt = PosInf, Deals = Fin 2,
           OutstandingAmt = Fin 0, ProcessingDateKeyPrior = ''0'',
           CommitmentAmtPrior = Fin 0, OutstandingAmtPrior = Fin 0, DealsPrior = Fin 0,
           ca_diff = None, oa_diff = None, deals_diff = None,
           ca_model_diff = None, oa_model_diff = None, deals_model_diff = None\<rparr>]"
  by (simp add: huge_engine is_double_def round64_huge)
    (simp add: huge_rows_def camel_row_def row_ca_def)

text \<open>
  Claim C9.  Every record of the engine has a deal count of at least 1, because its period
  has at least one row; hence in every record that has a predecessor the prior deal
  count, which is the predecessor's deal count, is at least 1 and \<open>deals_diff\<close> is not
  null.
\<close>

theorem deals_at_least_one:
  "\<exists>out. engine rows = Inr out \<and>
     (\<forall>i<length out.
        (\<exists>n. 1 \<le> n \<and> Deals (out ! i) = Fin (of_nat n)) \<and>
        (0 < i \<longrightarrow>
           DealsPrior (out ! i) = Deals (out ! (i - 1)) \<and>
           js_ge (DealsPrior (out ! i)) (Fin 1) \<and>
           deals_diff (out ! i) \<noteq> None))"
proof -
  let ?out = "records_from None (summaries rows)"
  have step:
    "(\<exists>n. 1 \<le> n \<and> Deals (?out ! i) = Fin (of_nat n)) \<and>
     (0 < i \<longrightarrow>
        DealsPrior (?out ! i) = Deals (?out ! (i - 1)) \<and>
        js_ge (DealsPrior (?out ! i)) (Fin 1) \<and>
        deals_diff (?out ! i) \<noteq> None)"
    if i: "i < length ?out" for i
  proof -
    from i have i': "i < length (periods rows)"
      by (simp add: length_engine)
    then have "periods rows ! i \<in> set (periods rows)"
      by simp
    from deals_agg_spec [OF this] have cur: "\<exists>n. 1 \<le> n \<and> Deals (?out ! i) = Fin (of_nat n)"
      using i' by (simp add: engine_nth mk_record_def)
    have prior: "DealsPrior (?out ! i) = Deals (?out ! (i - 1)) \<and>
        js_ge (DealsPrior (?out ! i)) (Fin 1) \<and> deals_diff (?out ! i) \<noteq> None"
      if pos: "0 < i"
    proof -
      from pos i' have j: "i - 1 < length (periods rows)"
        by simp
      then have "periods rows ! (i - 1) \<in> set (periods rows)"
        by simp
      from deals_agg_spec [OF this] obtain n where n: "1 \<le> n"
        and deals: "agg_Deals (agg_spec rows (periods rows ! (i - 1))) = Fin (of_nat n)"
        by blast
      have "DealsPrior (?out ! i) = Fin (of_nat n)"
        using pos i' deals by (simp add: engine_nth mk_record_def)
      moreover have "Deals (?out ! (i - 1)) = Fin (of_nat n)"
        using j deals by (simp add: engine_nth mk_record_def)
      moreover have "js_ge (Fin (of_nat n)) (Fin 1)"
        using n by (auto simp: js_ge_def)
      moreover have "deals_diff (?out ! i) \<noteq> None"
        using pos i' n diff_of_Fin [of agg_Deals, OF deals]
        by (simp add: engine_nth mk_record_def)
      ultimately show ?thesis by simp
    qed
    from cur prior show ?thesis by blast
  qed
  have "engine rows = Inr ?out"
    by (rule engine_eq)
  with step show ?thesis by blast
qed

theorem deals_at_least_one_witness:
  "\<exists>out. engine example_rows = Inr out \<and>
     map Deals out = [Fin 2, Fin 2] \<and> 1 < length out \<and>
     DealsPrior (out ! 1) = Deals (out ! 0) \<and> js_ge (DealsPrior (out ! 1)) (Fin 1) \<and>
     deals_diff (out ! 1) = Some (Fin 0)"
proof -
  from deals_at_least_one [of example_rows] obtain out where
    out: "engine example_rows = Inr out"
    by blast
  then have "out = projr (engine example_rows)"
    by simp
  with out show ?thesis
    by (simp add: example_engine js_ge_def)
qed

section \<open>Order of the records\<close>

text \<open>
  Claim C5.  When every period key of the input is a valid YYYYMMDD key, a string of eight
  decimal digits, the records of the engine are in strictly ascending order of the
  numbers their keys denote, and no key occurs twice.
\<close>

theorem engine_ascending_by_period:
  assumes "\<forall>r\<in>set rows. eight_digits (row_key r)"
  shows "\<exists>out. engine rows = Inr out \<and>
           sorted_wrt (<) (map (\<lambda>r. key_num (ProcessingDateKey r)) out) \<and>
           distinct (map ProcessingDateKey out)"
proof -
  let ?out = "records_from None (summaries rows)"
  have valid: "\<forall>k\<in>set (periods rows). eight_digits k"
    using assms by (auto simp: set_periods)
  have "key_num k < key_num k'"
    if "k \<in> set (periods rows)" "k' \<in> set (periods rows)" "k < k'" for k k'
    using that valid by (intro key_num_mono) (simp_all add: eight_digits_def)
  with sorted_periods [of rows] have "sorted_wrt (\<lambda>k k'. key_num k < key_num k') (periods rows)"
    by (rule sorted_wrt_mono_rel [rotated])
  then have "sorted_wrt (<) (map key_num (periods rows))"
    by (simp add: sorted_wrt_map)
  then have "sorted_wrt (<) (map (\<lambda>r. key_num (ProcessingDateKey r)) ?out)"
    using keys_engine [of rows, symmetric] by (simp add: comp_def)
  moreover have "distinct (map ProcessingDateKey ?out)"
    by (simp add: keys_engine distinct_periods)
  moreover have "engine rows = Inr ?out"
    by (rule engine_eq)
  ultimately show ?thesis by blast
qed

theorem engine_ascending_by_period_witness:
  "eight_digits (row_key (camel_row 20240229 1200000 900000)) \<and>
   eight_digits (row_key (camel_row 20240131 1000000 800000)) \<and>
   map row_key example_rows = [''20240229'', ''20240131'', ''20240131'', ''20240229''] \<and>
   (\<exists>out. engine example_rows = Inr out \<and>
      map (\<lambda>r. key_num (ProcessingDateKey r)) out = [20240131, 20240229] \<and>
      map ProcessingDateKey out = [''20240131'', ''20240229''])"
proof -
  have keys: "map row_key example_rows = [''20240229'', ''20240131'', ''20240131'', ''20240229'']"
    by (simp add: example_rows_def eval_row)
  have valid: "\<forall>r\<in>set example_rows. eight_digits (row_key r)"
  proof -
    have "\<forall>k\<in>set (map row_key example_rows). eight_digits k"
      unfolding keys by (simp add: eight_digits_def is_digit_def)
    then show ?thesis by simp
  qed
  from engine_ascending_by_period [OF valid] obtain out where
    out: "engine example_rows = Inr out"
    by blast
  then have "out = projr (engine example_rows)"
    by simp
  with out keys show ?thesis
    by (simp add: example_engine key_num_def digit_val_def)
       (simp add: example_rows_def eval_row eight_digits_def is_digit_def)
qed

text \<open>
  The hypothesis on the keys is needed: the sort is by string, and keys of different
  lengths are not in numeric order.
\<close>

lemma unequal_length_keys_order:
  "map ProcessingDateKey (projr (engine [camel_row 9 1 1, camel_row 10 1 1])) = [''10'', ''9'']"
  by (simp add: eval_row eval_engine)

section \<open>The first period\<close>

text \<open>
  Claim C6.  For every non-empty list of rows, one period or many, the engine returns
  without an error, and its first record, whose key is below the key of every other
  record, has the prior period key \<open>'0'\<close> and the three ratios null.
\<close>

theorem first_period_sentinel:
  assumes "rows \<noteq> []"
  shows "\<exists>r rest. engine rows = Inr (r # rest) \<and>
           ProcessingDateKeyPrior r = ''0'' \<and>
           ca_diff r = None \<and> oa_diff r = None \<and> deals_diff r = None \<and>
           (\<forall>x\<in>set rest. ProcessingDateKey r < ProcessingDateKey x) \<and>
           Suc (length rest) = card (row_key ` set rows)"
proof -
  from engine_first [OF assms] obtain e es where
    sums: "summaries rows = e # es" and
    out: "engine rows = Inr (mk_record (fst e) (snd e) None # records_from (Some e) es)"
    by blast
  let ?r = "mk_record (fst e) (snd e) None"
  let ?rest = "records_from (Some e) es"
  have keys: "ProcessingDateKey ?r # map ProcessingDateKey ?rest = periods rows"
    using keys_engine [of rows] by (simp add: sums)
  have "sorted_wrt (<) (ProcessingDateKey ?r # map ProcessingDateKey ?rest)"
    unfolding keys by (rule sorted_periods)
  then have least: "\<forall>x\<in>set ?rest. ProcessingDateKey ?r < ProcessingDateKey x"
    by simp
  have "length (ProcessingDateKey ?r # map ProcessingDateKey ?rest) = card (row_key ` set rows)"
    unfolding keys by (rule length_periods)
  then have len: "Suc (length ?rest) = card (row_key ` set rows)"
    by simp
  have "ProcessingDateKeyPrior ?r = ''0'' \<and> ca_diff ?r = None \<and> oa_diff ?r = None \<and>
        deals_diff ?r = None"
    by (simp add: mk_record_def diff_of_None)
  with out least len show ?thesis by blast
qed

theorem first_period_sentinel_witness:
  "single_row \<noteq> [] \<and>
   (\<exists>r. engine single_row = Inr [r] \<and> ProcessingDateKey r = ''20240131'' \<and>
      ProcessingDateKeyPrior r = ''0'' \<and>
      ca_diff r = None \<and> oa_diff r = None \<and> deals_diff r = None)"
proof -
  have ne: "single_row \<noteq> []"
    by (simp add: single_row_def)
  from first_period_sentinel [OF ne] obtain r rest where
    "engine single_row = Inr (r # rest)"
    by blast
  with ne show ?thesis
    by (auto simp add: single_engine)
qed

text \<open>
  Claim C3, as amended.  The claim asks for null prior aggregates in the first record.
  The three fields have the type \<open>number\<close> and the engine fills them with the number 0
  when there is no predecessor: for every non-empty list of rows the first record has
  \<open>CommitmentAmtPrior\<close>, \<open>OutstandingAmtPrior\<close> and \<open>DealsPrior\<close> equal to 0, and only
  its three ratios are null.
\<close>

theorem first_period_priors_are_zero:
  assumes "rows \<noteq> []"
  shows "\<exists>r rest. engine rows = Inr (r # rest) \<and>
           CommitmentAmtPrior r = Fin 0 \<and> OutstandingAmtPrior r = Fin 0 \<and>
           DealsPrior r = Fin 0 \<and>
           ca_diff r = None \<and> oa_diff r = None \<and> deals_diff r = None"
proof -
  from engine_first [OF assms] obtain e es where
    out: "engine rows = Inr (mk_record (fst e) (snd e) None # records_from (Some e) es)"
    by blast
  let ?r = "mk_record (fst e) (snd e) None"
  have "CommitmentAmtPrior ?r = Fin 0 \<and> OutstandingAmtPrior ?r = Fin 0 \<and> DealsPrior ?r = Fin 0 \<and>
        ca_diff ?r = None \<and> oa_diff ?r = None \<and> deals_diff ?r = None"
    by (simp add: mk_record_def diff_of_None)
  with out show ?thesis by blast
qed

theorem first_period_priors_are_zero_witness:
  "example_rows \<noteq> [] \<and>
   (\<exists>r rest. engine example_rows = Inr (r # rest) \<and> ProcessingDateKey r = ''20240131'' \<and>
      CommitmentAmtPrior r = Fin 0 \<and> OutstandingAmtPrior r = Fin 0 \<and> DealsPrior r = Fin 0 \<and>
      ca_diff r = None \<and> oa_diff r = None \<and> deals_diff r = None)"
proof -
  have ne: "example_rows \<noteq> []"
    by (simp add: example_rows_def)
  from first_period_priors_are_zero [OF ne] obtain r rest where
    "engine example_rows = Inr (r # rest)"
    by blast
  with ne show ?thesis
    by (auto simp add: example_engine)
qed

text \<open>
  The claim as stated fails on a single record: the prior aggregates of the only period
  are the number 0, not null.
\<close>

theorem first_period_priors_counterexample:
  "engine single_row =
     Inr [\<lparr>ProcessingDateKey = ''20240131'', CommitmentAmt = Fin 1000000, Deals = Fin 1,
           OutstandingAmt = Fin 800000, ProcessingDateKeyPrior = ''0'',
           CommitmentAmtPrior = Fin 0, OutstandingAmtPrior = Fin 0, DealsPrior = Fin 0,
           ca_diff = None, oa_diff = None, deals_diff = None,
           ca_model_diff = None, oa_model_diff = None, deals_model_diff = None\<rparr>]"
  by (simp add: single_row_def eval_row eval_engine)

section \<open>Change ratios\<close>



text \<open>
  Where the prior aggregate is positive, each ratio of the engine is the quotient
  \<open>(current - prior) / prior\<close> of doubles, which is \<open>(current / prior) - 1\<close> up to the
  rounding of the two operations.
\<close>

lemma ratio_positive_prior:
  "\<exists>out. engine rows = Inr out \<and>
     (\<forall>i p. 0 < i \<and> i < length out \<and> 0 < p \<longrightarrow>
        (CommitmentAmtPrior (out ! i) = Fin p \<longrightarrow>
           ca_diff (out ! i) =
             Some (js_div (js_sub (CommitmentAmt (out ! i)) (Fin p)) (Fin p))) \<and>
        (OutstandingAmtPrior (out ! i) = Fin p \<longrightarrow>
           oa_diff (out ! i) =
             Some (js_div (js_sub (OutstandingAmt (out ! i)) (Fin p)) (Fin p))) \<and>
        (DealsPrior (out ! i) = Fin p \<longrightarrow>
           deals_diff (out ! i) = Some (js_div (js_sub (Deals (out ! i)) (Fin p)) (Fin p))))"
proof -
  let ?out = "records_from None (summaries rows)"
  have "(CommitmentAmtPrior (?out ! i) = Fin p \<longrightarrow>
           ca_diff (?out ! i) =
             Some (js_div (js_sub (CommitmentAmt (?out ! i)) (Fin p)) (Fin p))) \<and>
        (OutstandingAmtPrior (?out ! i) = Fin p \<longrightarrow>
           oa_diff (?out ! i) =
             Some (js_div (js_sub (OutstandingAmt (?out ! i)) (Fin p)) (Fin p))) \<and>
        (DealsPrior (?out ! i) = Fin p \<longrightarrow>
           deals_diff (?out ! i) = Some (js_div (js_sub (Deals (?out ! i)) (Fin p)) (Fin p)))"
    if "0 < i \<and> i < length ?out \<and> 0 < p" for i p
  proof -
    from that have pos: "0 < i" and i: "i < length (periods rows)" and p: "0 < p"
      by (simp_all add: length_engine)
    show ?thesis
      using pos p by (simp add: engine_nth [OF i] mk_record_def diff_of_Fin)
  qed
  then show ?thesis
    using engine_eq [of rows] by blast
qed

text \<open>
  Claim C2.  The claim asks for the ratio \<open>(current / prior) - 1\<close> whenever the prior
  aggregate is not 0, a negative prior included.  The engine guards each ratio with
  \<open>prev.X > 0\<close>: with a prior total commitment of -100 and a current one of 50 its
  \<open>ca_diff\<close> is null, where the claim gives \<open>50 / -100 - 1 = -3/2\<close>.
\<close>

theorem negative_prior_ratio_is_null:
  "engine negative_prior_rows =
     Inr [\<lparr>ProcessingDateKey = ''20240131'', CommitmentAmt = Fin (- 100), Deals = Fin 1,
           OutstandingAmt = Fin 80, ProcessingDateKeyPrior = ''0'',
           CommitmentAmtPrior = Fin 0, OutstandingAmtPrior = Fin 0, DealsPrior = Fin 0,
           ca_diff = None, oa_diff = None, deals_diff = None,
           ca_model_diff = None, oa_model_diff = None, deals_model_diff = None\<rparr>,
          \<lparr>ProcessingDateKey = ''20240229'', CommitmentAmt = Fin 50, Deals = Fin 1,
           OutstandingAmt = Fin 40, ProcessingDateKeyPrior = ''20240131'',
           CommitmentAmtPrior = Fin (- 100), OutstandingAmtPrior = Fin 80, DealsPrior = Fin 1,
           ca_diff = None, oa_diff = Some (Fin (- 1 / 2)), deals_diff = Some (Fin 0),
           ca_model_diff = None, oa_model_diff = None, deals_model_diff = None\<rparr>]"
  by (simp add: negative_prior_rows_def eval_row eval_engine)

text \<open>
  The SQL roll-up takes the branch that computes the ratio for every prior that is not
  0, the prior of -100 included.
\<close>

lemma sql_ratio_guard_negative_prior: "\<not> sql_ratio_guard (Some (- 100))"
  by (simp add: sql_ratio_guard_def)

lemma sql_ratio_guard_iff: "sql_ratio_guard prior \<longleftrightarrow> prior = None \<or> prior = Some 0"
  by (cases prior) (simp_all add: sql_ratio_guard_def)

section \<open>Custom ranges\<close>

lemma js_gt_of_not_ge: "\<not> isNaN a \<Longrightarrow> \<not> isNaN b \<Longrightarrow> \<not> js_ge a b \<Longrightarrow> js_gt b a"
  by (cases a; cases b) (auto simp: js_ge_def)

text \<open>
  Claim C7, as amended.  The claim has a range with \<open>min >= max\<close> fail with an
  InvalidFilterError.  The code has no such error: \<open>handleSubmit\<close> never raises, and on a
  form whose minimum is greater than or equal to its maximum it returns with the list of
  ranges, the form and the dialog as they were.  Every range it adds has its maximum
  above its minimum, so no range with \<open>min >= max\<close> enters the filter specification.
\<close>

theorem invalid_range_is_ignored:
  "\<exists>st'. handleSubmit parseFloat now st = Inr st' \<and>
     (js_ge (parseFloat (form_min (rangeForm st))) (parseFloat (form_max (rangeForm st))) \<longrightarrow>
        st' = st) \<and>
     (\<forall>r\<in>set (customRanges st').
        r \<in> set (customRanges st) \<or> js_gt (range_max r) (range_min r))"
  by (auto simp: handleSubmit_def Let_def handleCustomRangeAdd_def js_gt_of_not_ge)

theorem invalid_range_is_ignored_witness:
  "js_ge (sample_parseFloat (form_min (rangeForm inverted_bounds_state)))
         (sample_parseFloat (form_max (rangeForm inverted_bounds_state))) \<and>
   handleSubmit sample_parseFloat 1700000000000 inverted_bounds_state = Inr inverted_bounds_state"
  using invalid_range_is_ignored [of sample_parseFloat 1700000000000 inverted_bounds_state]
  by (auto simp: inverted_bounds_state_def sample_parseFloat_def js_ge_def)

text \<open>
  The claim as stated fails on a form whose two bounds are both 100: the handler returns
  normally, with the state unchanged, and not with an error.
\<close>

theorem invalid_range_counterexample:
  "handleSubmit sample_parseFloat 1700000000000 equal_bounds_state = Inr equal_bounds_state"
  by (simp add: handleSubmit_def equal_bounds_state_def sample_parseFloat_def js_ge_def)

text \<open>A form with \<open>min < max\<close> and a label adds its range and resets the dialog.\<close>

lemma valid_range_is_added:
  "handleSubmit sample_parseFloat 17
     \<lparr>customRanges = [],
      rangeForm = \<lparr>form_label = utf16 '' Mid market '', form_min = ''100'',
                   form_max = ''500''\<rparr>,
      isDialogOpen = True\<rparr> =
   Inr \<lparr>customRanges = [\<lparr>range_id = ''custom-17'', range_label = utf16 ''Mid market'',
                          range_min = Fin 100, range_max = Fin 500\<rparr>],
        rangeForm = \<lparr>form_label = [], form_min = '''', form_max = ''''\<rparr>,
        isDialogOpen = False\<rparr>"
  by (simp add: handleSubmit_def sample_parseFloat_def js_ge_def trim_def is_space_def utf16_def
      handleCustomRangeAdd_def string_of_nat.simps digit_char_def)

section \<open>Empty selections in the request\<close>

text \<open>
  Claim C8, as amended.  The claim has every empty filter group impose no restriction.
  In the request that \<open>handleRunQuery\<close> builds, an empty group sends no restriction
  unless it is the region or the SBA classification: an empty selection of lines of
  business, of commitment size groups or of risk groups is sent as an absent filter (a
  selection that is not empty is sent as it is), and an empty list of custom ranges, of
  date filters, of banks or of NAICS groups adds nothing to the request.  With an empty
  selection of regions the request names the region Rocky Mountain, and with an empty
  selection of SBA classifications it names Non-SBA.
\<close>

theorem empty_selection_in_request:
  "(group_is_empty sel g \<longrightarrow>
      sent_restriction (handleRunQuery_request sel now) g =
        (if g = Region then Some [''Rocky Mountain'']
         else if g = SbaClassification then Some [''Non-SBA'']
         else None)) \<and>
   (sel_lineOfBusiness sel \<noteq> [] \<longrightarrow>
      line_of_business_ids (handleRunQuery_request sel now) = Some (sel_lineOfBusiness sel)) \<and>
   (sel_commitmentSizeGroup sel \<noteq> [] \<longrightarrow>
      commitment_size_groups (handleRunQuery_request sel now) =
        Some (sel_commitmentSizeGroup sel)) \<and>
   (sel_riskGroup sel \<noteq> [] \<longrightarrow>
      risk_group_descriptions (handleRunQuery_request sel now) = Some (sel_riskGroup sel))"
  by (cases g)
    (simp_all add: handleRunQuery_request_def non_empty_or_undefined_def first_or_default_def)

theorem empty_selection_in_request_witness:
  "group_is_empty lob_selection RiskGroup \<and>
   sent_restriction (handleRunQuery_request lob_selection 17) RiskGroup = None \<and>
   risk_group_descriptions (handleRunQuery_request lob_selection 17) = None \<and>
   group_is_empty lob_selection DateFilters \<and>
   sent_restriction (handleRunQuery_request lob_selection 17) DateFilters = None \<and>
   group_is_empty lob_selection Region \<and>
   sent_restriction (handleRunQuery_request lob_selection 17) Region = Some [''Rocky Mountain''] \<and>
   sel_lineOfBusiness lob_selection = [''12''] \<and>
   line_of_business_ids (handleRunQuery_request lob_selection 17) = Some [''12'']"
  using empty_selection_in_request [of lob_selection RiskGroup 17]
    empty_selection_in_request [of lob_selection DateFilters 17]
    empty_selection_in_request [of lob_selection Region 17]
  by (simp add: lob_selection_def no_selection_def)

text \<open>
  The claim as stated fails for the region.  With one line of business selected, which
  enables the run button, and no region, the request restricts to Rocky Mountain: it is
  the very request of a user who selected that region as well.
\<close>

theorem empty_region_counterexample:
  "totalSelectedFilters lob_selection = 1 \<and>
   sel_region lob_selection = [] \<and>
   region (handleRunQuery_request lob_selection 17) = ''Rocky Mountain'' \<and>
   handleRunQuery_request lob_selection 17 =
     handleRunQuery_request (lob_selection\<lparr>sel_region := [''Rocky Mountain'']\<rparr>) 17"
  by (simp add: handleRunQuery_request_def lob_selection_def no_selection_def
      first_or_default_def totalSelectedFilters_def)

end
